theory Spec2Isabelle
  imports Main "HOL-Library.Word" "HOL-Library.List_Lexorder"
begin

unbundle bit_operations_syntax

section \<open>The B+tree key-value store of \<^verbatim>\<open>src/b+tree/kvs.c\<close>\<close>

text \<open>
  Conventions of the embedding.
  \<^item> A buffer \<open>(const char *p, size_t len)\<close> is the list of its \<open>len\<close> bytes; the lengths
    \<open>klen\<close>, \<open>vlen\<close> are the lengths of these lists. Sizes are natural numbers: the
    \<open>size_t\<close> arithmetic of the allocator is on lengths of buffers that exist in memory and
    does not wrap. The counter \<open>count\<close> is incremented and decremented modulo \<open>2 ^ 64\<close>
    as the \<open>size_t\<close> field of an LP64 build is. The \<open>uint32_t\<close> fields \<open>klen\<close>,
    \<open>vlen\<close> of an entry and \<open>klens[i]\<close> of a node hold the lengths exactly: an entry exists
    only when \<open>pool_alloc(klen + 1)\<close> and \<open>pool_alloc(vlen + 1)\<close> succeeded in the
    \<open>2 ^ 27\<close>-byte pool.
  \<^item> The arena holds copies of key and value bytes that are never changed afterwards; an
    \<open>Entry\<close> therefore carries the bytes themselves, and \<open>pool_pos\<close> records how much of
    the arena is used.
  \<^item> A node with \<open>num_keys = n\<close> has \<open>keys[0..n-1]\<close> and, when internal,
    \<open>children[0..n]\<close>: \<open>Internal c0 [(k0, c1), ..., (k(n-1), cn)]\<close> pairs \<open>keys[i]\<close> with
    \<open>children[i+1]\<close>. A leaf pairs \<open>keys[i]\<close> with \<open>entries[i]\<close>.
  \<^item> \<open>split_leaf\<close> links the new leaf directly after the old one both in the parent and in
    the \<open>next\<close>/\<open>prev\<close> chain, and \<open>kvs_put_raw\<close> resets \<open>first_leaf\<close> to the leftmost
    leaf; the chain starting at \<open>first_leaf\<close> is represented by the left-to-right list of the
    leaves of the tree (\<open>leaf_nodes\<close>), and a pointer to a leaf by its position in that list.
  \<^item> The bit vector of the Bloom filter is the set of the positions of its set bits.
  \<^item> The statistics fields \<open>height\<close> and \<open>node_count\<close> and the \<open>filepath\<close> are read by no
    operation modelled here and are left out.
\<close>

type_synonym byte = "8 word"
type_synonym u32 = "32 word"

subsection \<open>Hash functions\<close>

fun fnv1a_loop :: "u32 \<Rightarrow> byte list \<Rightarrow> u32" where
  "fnv1a_loop h [] = h"
| "fnv1a_loop h (b # bs) = fnv1a_loop ((h XOR ucast b) * 16777619) bs"

definition fnv1a :: "byte list \<Rightarrow> u32" where
  "fnv1a k = fnv1a_loop 2166136261 k"

text \<open>\<open>hash2\<close> and \<open>hash3\<close> read \<open>k[i]\<close> as a plain \<open>char\<close>, which is signed on the x86-64
  ABI: the byte is sign-extended before it is combined with \<open>h\<close>.\<close>

fun hash2_loop :: "u32 \<Rightarrow> byte list \<Rightarrow> u32" where
  "hash2_loop h [] = h"
| "hash2_loop h (b # bs) = hash2_loop ((push_bit 5 h + h) XOR scast b) bs"

definition hash2 :: "byte list \<Rightarrow> u32" where
  "hash2 k = hash2_loop 0x5bd1e995 k"

fun hash3_loop :: "u32 \<Rightarrow> byte list \<Rightarrow> u32" where
  "hash3_loop h [] = h"
| "hash3_loop h (b # bs) = hash3_loop (h * 31 + scast b) bs"

definition hash3 :: "byte list \<Rightarrow> u32" where
  "hash3 k = hash3_loop 0x811c9dc5 k"

subsection \<open>Key comparison\<close>

fun memcmp :: "byte list \<Rightarrow> byte list \<Rightarrow> nat \<Rightarrow> int" where
  "memcmp (a # as) (b # bs) n =
     (if n = 0 then 0
      else if a < b then - 1 else if b < a then 1 else memcmp as bs (n - 1))"
| "memcmp _ _ n = 0"

definition keycmp :: "byte list \<Rightarrow> byte list \<Rightarrow> int" where
  "keycmp k1 k2 =
     (let l1 = length k1; l2 = length k2;
          mn = (if l1 < l2 then l1 else l2);
          cmp = memcmp k1 k2 mn
      in if cmp \<noteq> 0 then cmp
         else if l1 < l2 then - 1 else if l1 > l2 then 1 else 0)"

subsection \<open>Entries, nodes, the store\<close>

record Entry =
  ekey :: "byte list"
  evalue :: "byte list"
  edeleted :: bool

datatype BPNode =
  Leaf "(byte list \<times> Entry) list"
| Internal BPNode "(byte list \<times> BPNode) list"

fun is_leaf :: "BPNode \<Rightarrow> bool" where
  "is_leaf (Leaf kes) = True"
| "is_leaf (Internal c0 kcs) = False"

fun keys :: "BPNode \<Rightarrow> byte list list" where
  "keys (Leaf kes) = map fst kes"
| "keys (Internal c0 kcs) = map fst kcs"

fun entries :: "BPNode \<Rightarrow> Entry list" where
  "entries (Leaf kes) = map snd kes"
| "entries (Internal c0 kcs) = []"

fun children :: "BPNode \<Rightarrow> BPNode list" where
  "children (Leaf kes) = []"
| "children (Internal c0 kcs) = c0 # map snd kcs"

definition num_keys :: "BPNode \<Rightarrow> nat" where
  "num_keys n = length (keys n)"

record KVS =
  pool_size :: nat
  pool_pos :: nat
  root :: BPNode
  count :: nat
  bloom :: "nat set"
  bloom_bits :: nat
  bloom_set_bits :: nat

datatype KVSError = KVS_OK | KVS_ERR_NOMEM | KVS_ERR_NOTFOUND | KVS_ERR_IO | KVS_ERR_FULL

definition KVS_DEFAULT_POOL_SIZE :: nat where
  "KVS_DEFAULT_POOL_SIZE = 128 * 1024 * 1024"

definition ORDER :: nat where
  "ORDER = 64"

definition KVS_BLOOM_INIT_BITS :: nat where
  "KVS_BLOOM_INIT_BITS = 2 ^ 20"

definition KVS_BLOOM_MAX_BITS :: nat where
  "KVS_BLOOM_MAX_BITS = 2 ^ 26"

text \<open>\<open>sizeof(Entry)\<close> on LP64: two pointers, two \<open>uint32_t\<close>, one \<open>uint8_t\<close>, padded to 32.\<close>

definition sizeof_Entry :: nat where
  "sizeof_Entry = 32"

subsection \<open>Bloom filter\<close>

definition bloom_set_bit :: "KVS \<Rightarrow> nat \<Rightarrow> KVS" where
  "bloom_set_bit db pos =
     (if pos \<in> bloom db then db
      else db\<lparr>bloom := insert pos (bloom db), bloom_set_bits := bloom_set_bits db + 1\<rparr>)"

definition bloom_get_bit :: "KVS \<Rightarrow> nat \<Rightarrow> bool" where
  "bloom_get_bit db pos = (pos \<in> bloom db)"

text \<open>\<open>bloom_add\<close> and \<open>bloom_maybe\<close> compute \<open>hash % bits\<close>: they are defined for
  \<open>bloom_bits > 0\<close> only (the code divides by zero otherwise), which holds in every store
  that \<open>kvs_open\<close>, \<open>kvs_put_raw\<close>, \<open>kvs_delete\<close> and \<open>kvs_load\<close> produce.\<close>

definition bloom_add :: "KVS \<Rightarrow> byte list \<Rightarrow> KVS" where
  "bloom_add db k =
     (let bits = bloom_bits db;
          db1 = bloom_set_bit db (unat (fnv1a k) mod bits);
          db2 = bloom_set_bit db1 (unat (hash2 k) mod bits)
      in bloom_set_bit db2 (unat (hash3 k) mod bits))"

definition bloom_maybe :: "KVS \<Rightarrow> byte list \<Rightarrow> bool" where
  "bloom_maybe db k =
     (let bits = bloom_bits db
      in bloom_get_bit db (unat (fnv1a k) mod bits) \<and>
         bloom_get_bit db (unat (hash2 k) mod bits) \<and>
         bloom_get_bit db (unat (hash3 k) mod bits))"

fun leaf_nodes :: "BPNode \<Rightarrow> BPNode list" where
  "leaf_nodes (Leaf kes) = [Leaf kes]"
| "leaf_nodes (Internal c0 kcs) = leaf_nodes c0 @ concat (map (\<lambda>kc. leaf_nodes (snd kc)) kcs)"

text \<open>The slots \<open>(keys[i], entries[i])\<close> met by the walk
  \<open>for (leaf = first_leaf; leaf; leaf = leaf->next) for (i = 0; i < leaf->num_keys; i++)\<close>.\<close>

fun leaf_slots :: "BPNode \<Rightarrow> (byte list \<times> Entry) list" where
  "leaf_slots (Leaf kes) = kes"
| "leaf_slots (Internal c0 kcs) = []"

definition chain_slots :: "BPNode \<Rightarrow> (byte list \<times> Entry) list" where
  "chain_slots r = concat (map leaf_slots (leaf_nodes r))"

definition bloom_rebuild :: "KVS \<Rightarrow> KVS" where
  "bloom_rebuild db =
     fold (\<lambda>ke d. if \<not> edeleted (snd ke) then bloom_add d (fst ke) else d)
          (chain_slots (root db)) db"

definition bloom_expand :: "KVS \<Rightarrow> KVS" where
  "bloom_expand db =
     (let new_bits = bloom_bits db * 4;
          new_bits = (if new_bits > KVS_BLOOM_MAX_BITS then KVS_BLOOM_MAX_BITS else new_bits)
      in if new_bits = bloom_bits db then db
         else bloom_rebuild (db\<lparr>bloom := {}, bloom_bits := new_bits, bloom_set_bits := 0\<rparr>))"

text \<open>\<open>fill = (double)bloom_set_bits / bloom_bits\<close> is compared with \<open>0.5\<close>. Both operands
  are below \<open>2 ^ 53\<close>, the division is correctly rounded and \<open>0.5\<close> is a double, so
  \<open>fill >= 0.5\<close> holds exactly when \<open>2 * bloom_set_bits \<ge> bloom_bits\<close> (for
  \<open>bloom_bits = 0\<close> the branch taken makes no difference: \<open>bloom_expand\<close> returns at
  \<open>new_bits == bloom_bits\<close>).\<close>

definition bloom_check_expand :: "KVS \<Rightarrow> KVS" where
  "bloom_check_expand db =
     (if 2 * bloom_set_bits db \<ge> bloom_bits db \<and> bloom_bits db < KVS_BLOOM_MAX_BITS
      then bloom_expand db else db)"

subsection \<open>Memory pool\<close>

text \<open>Returns the offset of the block, or \<open>None\<close> for \<open>NULL\<close>.
  \<open>(size + 7) & ~7\<close> rounds the request up to a multiple of 8.\<close>

definition pool_alloc :: "KVS \<Rightarrow> nat \<Rightarrow> nat option \<times> KVS" where
  "pool_alloc db req =
     (let sz = ((req + 7) div 8) * 8
      in if pool_pos db + sz > pool_size db then (None, db)
         else (Some (pool_pos db), db\<lparr>pool_pos := pool_pos db + sz\<rparr>))"

subsection \<open>Searching\<close>

function bsearch_lt :: "byte list list \<Rightarrow> byte list \<Rightarrow> nat \<Rightarrow> nat \<Rightarrow> nat" where
  "bsearch_lt ks k lo hi =
     (if lo < hi then
        (let mid = (lo + hi) div 2
         in if keycmp (ks ! mid) k < 0 then bsearch_lt ks k (mid + 1) hi
            else bsearch_lt ks k lo mid)
      else lo)"
  by pat_completeness auto
termination
  by (relation "measure (\<lambda>(ks, k, lo, hi). hi - lo)") auto

function bsearch_le :: "byte list list \<Rightarrow> byte list \<Rightarrow> nat \<Rightarrow> nat \<Rightarrow> nat" where
  "bsearch_le ks k lo hi =
     (if lo < hi then
        (let mid = (lo + hi) div 2
         in if keycmp (ks ! mid) k \<le> 0 then bsearch_le ks k (mid + 1) hi
            else bsearch_le ks k lo mid)
      else lo)"
  by pat_completeness auto
termination
  by (relation "measure (\<lambda>(ks, k, lo, hi). hi - lo)") auto

declare bsearch_lt.simps [simp del] bsearch_le.simps [simp del]

definition leaf_find_pos :: "BPNode \<Rightarrow> byte list \<Rightarrow> nat" where
  "leaf_find_pos leaf k = bsearch_lt (keys leaf) k 0 (num_keys leaf)"

definition internal_find_pos :: "BPNode \<Rightarrow> byte list \<Rightarrow> nat" where
  "internal_find_pos node k = bsearch_le (keys node) k 0 (num_keys node)"

lemma bsearch_lt_bounds: "lo \<le> hi \<Longrightarrow> lo \<le> bsearch_lt ks k lo hi \<and> bsearch_lt ks k lo hi \<le> hi"
proof (induction ks k lo hi rule: bsearch_lt.induct)
  case (1 ks k lo hi)
  show ?case
  proof (cases "lo < hi")
    case True
    define mid where "mid = (lo + hi) div 2"
    have m: "lo \<le> mid" "mid < hi" using True by (auto simp: mid_def)
    show ?thesis
    proof (cases "keycmp (ks ! mid) k < 0")
      case less: True
      have "bsearch_lt ks k lo hi = bsearch_lt ks k (mid + 1) hi"
        using True less by (subst bsearch_lt.simps) (simp add: Let_def mid_def)
      moreover have "mid + 1 \<le> bsearch_lt ks k (mid + 1) hi \<and> bsearch_lt ks k (mid + 1) hi \<le> hi"
        using "1.IH"(1) [OF True mid_def less] m by simp
      ultimately show ?thesis using m by simp
    next
      case geq: False
      have "bsearch_lt ks k lo hi = bsearch_lt ks k lo mid"
        using True geq by (subst bsearch_lt.simps) (simp add: Let_def mid_def)
      moreover have "lo \<le> bsearch_lt ks k lo mid \<and> bsearch_lt ks k lo mid \<le> mid"
        using "1.IH"(2) [OF True mid_def geq] m by simp
      ultimately show ?thesis using m by simp
    qed
  next
    case False
    then show ?thesis using "1.prems" by (simp add: bsearch_lt.simps)
  qed
qed

lemma bsearch_le_bounds: "lo \<le> hi \<Longrightarrow> lo \<le> bsearch_le ks k lo hi \<and> bsearch_le ks k lo hi \<le> hi"
proof (induction ks k lo hi rule: bsearch_le.induct)
  case (1 ks k lo hi)
  show ?case
  proof (cases "lo < hi")
    case True
    define mid where "mid = (lo + hi) div 2"
    have m: "lo \<le> mid" "mid < hi" using True by (auto simp: mid_def)
    show ?thesis
    proof (cases "keycmp (ks ! mid) k \<le> 0")
      case less: True
      have "bsearch_le ks k lo hi = bsearch_le ks k (mid + 1) hi"
        using True less by (subst bsearch_le.simps) (simp add: Let_def mid_def)
      moreover have "mid + 1 \<le> bsearch_le ks k (mid + 1) hi \<and> bsearch_le ks k (mid + 1) hi \<le> hi"
        using "1.IH"(1) [OF True mid_def less] m by simp
      ultimately show ?thesis using m by simp
    next
      case geq: False
      have "bsearch_le ks k lo hi = bsearch_le ks k lo mid"
        using True geq by (subst bsearch_le.simps) (simp add: Let_def mid_def)
      moreover have "lo \<le> bsearch_le ks k lo mid \<and> bsearch_le ks k lo mid \<le> mid"
        using "1.IH"(2) [OF True mid_def geq] m by simp
      ultimately show ?thesis using m by simp
    qed
  next
    case False
    then show ?thesis using "1.prems" by (simp add: bsearch_le.simps)
  qed
qed

lemma internal_find_pos_le: "internal_find_pos n k \<le> num_keys n"
  using bsearch_le_bounds [of 0 "num_keys n" "keys n" k] by (simp add: internal_find_pos_def)

lemma leaf_find_pos_le: "leaf_find_pos n k \<le> num_keys n"
  using bsearch_lt_bounds [of 0 "num_keys n" "keys n" k] by (simp add: leaf_find_pos_def)

lemma size_nth_child:
  "i < length kcs \<Longrightarrow> size (snd (kcs ! i)) < Suc (size_list (size_prod (\<lambda>_. 0) size) kcs)"
proof (induction kcs arbitrary: i)
  case Nil
  then show ?case by simp
next
  case (Cons a kcs)
  show ?case
  proof (cases i)
    case 0
    then show ?thesis by (cases a) simp
  next
    case (Suc j)
    then have "size (snd (kcs ! j)) < Suc (size_list (size_prod (\<lambda>_. 0) size) kcs)"
      using Cons.IH [of j] Cons.prems by simp
    then show ?thesis using Suc by simp
  qed
qed

lemma size_children:
  "i \<le> length kcs \<Longrightarrow> size ((c0 # map snd kcs) ! i) < size (Internal c0 kcs)"
  using size_nth_child [of "i - 1" kcs] by (cases i) auto

subsection \<open>Descent to a leaf\<close>

text \<open>\<open>find_leaf\<close> follows \<open>children[internal_find_pos(n, key)]\<close> down to a leaf. The store
  always has a root, so the \<open>NULL\<close> result of the source (for \<open>db->root == NULL\<close>) does not
  arise. \<open>find_leaf\<close> gives the node reached, \<open>find_leaf_ptr\<close> its position in the leaf chain
  (the pointer value a cursor keeps), and \<open>store_leaf\<close> writes through that pointer.\<close>

function find_leaf :: "BPNode \<Rightarrow> byte list \<Rightarrow> BPNode" where
  "find_leaf (Leaf kes) k = Leaf kes"
| "find_leaf (Internal c0 kcs) k =
     find_leaf (children (Internal c0 kcs) ! internal_find_pos (Internal c0 kcs) k) k"
  by pat_completeness auto
termination
proof (relation "measure (\<lambda>(n, k). size n)", goal_cases)
  case 1
  show ?case by simp
next
  case (2 c0 kcs k)
  have "internal_find_pos (Internal c0 kcs) k \<le> length kcs"
    using internal_find_pos_le [of "Internal c0 kcs" k] by (simp add: num_keys_def)
  then show ?case using size_children [of _ kcs c0] by simp
qed

function find_leaf_ptr :: "BPNode \<Rightarrow> byte list \<Rightarrow> nat" where
  "find_leaf_ptr (Leaf kes) k = 0"
| "find_leaf_ptr (Internal c0 kcs) k =
     (let pos = internal_find_pos (Internal c0 kcs) k;
          cs = children (Internal c0 kcs)
      in length (concat (map leaf_nodes (take pos cs))) + find_leaf_ptr (cs ! pos) k)"
  by pat_completeness auto
termination
proof (relation "measure (\<lambda>(n, k). size n)", goal_cases)
  case 1
  show ?case by simp
next
  case (2 c0 kcs k pos cs)
  have "internal_find_pos (Internal c0 kcs) k \<le> length kcs"
    using internal_find_pos_le [of "Internal c0 kcs" k] by (simp add: num_keys_def)
  then show ?case using 2 size_children [of _ kcs c0] by simp
qed

text \<open>Replace \<open>children[i]\<close> of an internal node.\<close>

fun set_child :: "BPNode \<Rightarrow> nat \<Rightarrow> BPNode \<Rightarrow> BPNode" where
  "set_child (Leaf kes) i c = Leaf kes"
| "set_child (Internal c0 kcs) i c =
     (if i = 0 then Internal c kcs
      else Internal c0 (kcs[i - 1 := (fst (kcs ! (i - 1)), c)]))"

function store_leaf :: "BPNode \<Rightarrow> byte list \<Rightarrow> BPNode \<Rightarrow> BPNode" where
  "store_leaf (Leaf kes) k l = l"
| "store_leaf (Internal c0 kcs) k l =
     (let pos = internal_find_pos (Internal c0 kcs) k
      in set_child (Internal c0 kcs) pos
           (store_leaf (children (Internal c0 kcs) ! pos) k l))"
  by pat_completeness auto
termination
proof (relation "measure (\<lambda>(n, k, l). size n)", goal_cases)
  case 1
  show ?case by simp
next
  case (2 c0 kcs k l pos)
  have "internal_find_pos (Internal c0 kcs) k \<le> length kcs"
    using internal_find_pos_le [of "Internal c0 kcs" k] by (simp add: num_keys_def)
  then show ?case using 2 size_children [of _ kcs c0] by simp
qed

subsection \<open>Splitting and insertion\<close>

text \<open>
  In the source \<open>split_leaf\<close> and \<open>split_internal\<close> cut the node in two and then either
  create a new root (\<open>parent == NULL\<close>) or shift the separator and the new node into
  \<open>parent\<close> at \<open>parent_pos\<close>. Here the two halves and the separator are handed back as
  \<open>Split left up_key right\<close>; the caller that owns the parent installs them with
  \<open>parent_insert\<close>, and \<open>kvs_put_raw\<close>, which called with \<open>parent = NULL\<close>, builds the new
  root.
\<close>

datatype InsResult = NoSplit BPNode | Split BPNode "byte list" BPNode

definition split_leaf :: "BPNode \<Rightarrow> InsResult" where
  "split_leaf leaf =
     (let kes = leaf_slots leaf;
          mid = num_keys leaf div 2;
          new_leaf = Leaf (drop mid kes);
          up_key = keys new_leaf ! 0
      in Split (Leaf (take mid kes)) up_key new_leaf)"

fun split_internal :: "BPNode \<Rightarrow> InsResult" where
  "split_internal (Internal c0 kcs) =
     (let mid = length kcs div 2;
          up_key = fst (kcs ! mid);
          new_node = Internal (snd (kcs ! mid)) (drop (mid + 1) kcs)
      in Split (Internal c0 (take mid kcs)) up_key new_node)"
| "split_internal (Leaf kes) = NoSplit (Leaf kes)"

text \<open>The \<open>else\<close> branch of both split functions: keys and children right of
  \<open>parent_pos\<close> move one place up, \<open>keys[parent_pos] = up_key\<close>,
  \<open>children[parent_pos + 1] = new node\<close>; \<open>children[parent_pos]\<close> is the node that was cut.\<close>

fun parent_insert :: "BPNode \<Rightarrow> nat \<Rightarrow> BPNode \<Rightarrow> byte list \<Rightarrow> BPNode \<Rightarrow> BPNode" where
  "parent_insert (Internal c0 kcs) parent_pos l up_key r =
     set_child (Internal c0 (take parent_pos kcs @ [(up_key, r)] @ drop parent_pos kcs))
       parent_pos l"
| "parent_insert (Leaf kes) parent_pos l up_key r = Leaf kes"

function insert_recursive :: "BPNode \<Rightarrow> byte list \<Rightarrow> Entry \<Rightarrow> nat \<times> InsResult" where
  "insert_recursive (Leaf kes) k entry =
     (let node = Leaf kes; pos = leaf_find_pos node k
      in if pos < num_keys node \<and> keycmp (keys node ! pos) k = 0 then
           (if \<not> edeleted (entries node ! pos)
            then (0, NoSplit (Leaf (kes[pos := (keys node ! pos,
                                   (entries node ! pos)\<lparr>evalue := evalue entry\<rparr>)])))
            else (1, NoSplit (Leaf (kes[pos := (keys node ! pos, entry)]))))
         else
           (let node' = Leaf (take pos kes @ [(take (length k) (ekey entry), entry)] @ drop pos kes)
            in if num_keys node' \<ge> ORDER - 1 then (1, split_leaf node')
               else (1, NoSplit node')))"
| "insert_recursive (Internal c0 kcs) k entry =
     (let node = Internal c0 kcs; pos = internal_find_pos node k;
          res = insert_recursive (children node ! pos) k entry;
          node' = (case snd res of
                     NoSplit c \<Rightarrow> set_child node pos c
                   | Split l up_key r \<Rightarrow> parent_insert node pos l up_key r)
      in if num_keys node' \<ge> ORDER - 1 then (fst res, split_internal node')
         else (fst res, NoSplit node'))"
  by pat_completeness auto
termination
proof (relation "measure (\<lambda>(n, k, e). size n)", goal_cases)
  case 1
  show ?case by simp
next
  case (2 c0 kcs k entry node pos)
  have "internal_find_pos (Internal c0 kcs) k \<le> length kcs"
    using internal_find_pos_le [of "Internal c0 kcs" k] by (simp add: num_keys_def)
  then show ?case using 2 size_children [of _ kcs c0] by simp
qed

subsection \<open>Public interface\<close>

definition kvs_open :: KVS where
  "kvs_open =
     \<lparr>pool_size = KVS_DEFAULT_POOL_SIZE, pool_pos = 0, root = Leaf [], count = 0,
      bloom = {}, bloom_bits = KVS_BLOOM_INIT_BITS, bloom_set_bits = 0\<rparr>"

text \<open>The three allocations at the head of \<open>kvs_put_raw\<close>: entry record, key copy,
  value copy. All three are attempted before the results are tested.\<close>

definition put_allocs :: "KVS \<Rightarrow> byte list \<Rightarrow> byte list \<Rightarrow> nat option \<times> nat option \<times> nat option \<times> KVS" where
  "put_allocs db k v =
     (let (e, db1) = pool_alloc db sizeof_Entry;
          (kp, db2) = pool_alloc db1 (length k + 1);
          (vp, db3) = pool_alloc db2 (length v + 1)
      in (e, kp, vp, db3))"

definition kvs_put_raw :: "KVS \<Rightarrow> byte list \<Rightarrow> byte list \<Rightarrow> KVSError \<times> KVS" where
  "kvs_put_raw db k v =
     (let (e, kp, vp, db3) = put_allocs db k v
      in if e = None \<or> kp = None \<or> vp = None then (KVS_ERR_NOMEM, db3)
         else
           (let entry = \<lparr>ekey = k, evalue = v, edeleted = False\<rparr>;
                db4 = bloom_add db3 k;
                res = insert_recursive (root db4) k entry;
                db5 = db4\<lparr>root := (case snd res of
                                      NoSplit n \<Rightarrow> n
                                    | Split l up_key r \<Rightarrow> Internal l [(up_key, r)])\<rparr>;
                db6 = (if fst res \<noteq> 0 then db5\<lparr>count := (count db5 + 1) mod 2 ^ 64\<rparr> else db5);
                db7 = (if count db6 mod 1000 = 0 then bloom_check_expand db6 else db6)
            in (KVS_OK, db7)))"

text \<open>A C string argument: the bytes before the first NUL.\<close>

definition strlen :: "byte list \<Rightarrow> nat" where
  "strlen s = length (takeWhile (\<lambda>b. b \<noteq> 0) s)"

definition kvs_put :: "KVS \<Rightarrow> byte list \<Rightarrow> byte list \<Rightarrow> KVSError \<times> KVS" where
  "kvs_put db k v = kvs_put_raw db (take (strlen k) k) (take (strlen v) v)"

text \<open>The result is the fresh copy of the value (\<open>e->vlen\<close> bytes), \<open>None\<close> for \<open>NULL\<close>.\<close>

definition kvs_get_raw :: "KVS \<Rightarrow> byte list \<Rightarrow> byte list option" where
  "kvs_get_raw db k =
     (if \<not> bloom_maybe db k then None
      else
        (let leaf = find_leaf (root db) k; pos = leaf_find_pos leaf k
         in if pos < num_keys leaf \<and> keycmp (keys leaf ! pos) k = 0 \<and>
               \<not> edeleted (entries leaf ! pos)
            then Some (evalue (entries leaf ! pos))
            else None))"

definition kvs_get :: "KVS \<Rightarrow> byte list \<Rightarrow> byte list option" where
  "kvs_get db k = kvs_get_raw db (take (strlen k) k)"

definition kvs_exists :: "KVS \<Rightarrow> byte list \<Rightarrow> bool" where
  "kvs_exists db key =
     (let k = take (strlen key) key
      in if \<not> bloom_maybe db k then False
         else
           (let leaf = find_leaf (root db) k; pos = leaf_find_pos leaf k
            in pos < num_keys leaf \<and> keycmp (keys leaf ! pos) k = 0 \<and>
               \<not> edeleted (entries leaf ! pos)))"

definition kvs_delete :: "KVS \<Rightarrow> byte list \<Rightarrow> KVSError \<times> KVS" where
  "kvs_delete db key =
     (let k = take (strlen key) key
      in if \<not> bloom_maybe db k then (KVS_ERR_NOTFOUND, db)
         else
           (let leaf = find_leaf (root db) k; pos = leaf_find_pos leaf k
            in if pos < num_keys leaf \<and> keycmp (keys leaf ! pos) k = 0 \<and>
                  \<not> edeleted (entries leaf ! pos)
               then (KVS_OK,
                     db\<lparr>root := store_leaf (root db) k
                                  (Leaf ((leaf_slots leaf)[pos := (keys leaf ! pos,
                                           (entries leaf ! pos)\<lparr>edeleted := True\<rparr>)])),
                        count := (count db + 2 ^ 64 - 1) mod 2 ^ 64\<rparr>)
               else (KVS_ERR_NOTFOUND, db)))"

text \<open>\<open>kvs_foreach\<close>: the list of the callback's arguments \<open>(e->key, e->value)\<close>, in call
  order; the source returns the number of calls.\<close>

definition foreach_calls :: "KVS \<Rightarrow> (byte list \<times> byte list) list" where
  "foreach_calls db =
     map (\<lambda>ke. (ekey (snd ke), evalue (snd ke)))
         (filter (\<lambda>ke. \<not> edeleted (snd ke)) (chain_slots (root db)))"

definition kvs_foreach :: "KVS \<Rightarrow> nat" where
  "kvs_foreach db = length (foreach_calls db)"

definition kvs_stats_count :: "KVS \<Rightarrow> nat" where
  "kvs_stats_count db = count db"

definition kvs_stats_memory_used :: "KVS \<Rightarrow> nat" where
  "kvs_stats_memory_used db = pool_pos db"

definition kvs_stats_bloom_bits :: "KVS \<Rightarrow> nat" where
  "kvs_stats_bloom_bits db = bloom_bits db"


subsection \<open>Cursor\<close>

text \<open>\<open>cur_node = None\<close> is the \<open>NULL\<close> node; \<open>Some n\<close> points to the \<open>n\<close>-th leaf of the
  chain. The cursor belongs to a store, which the operations take as an argument; each
  motion returns the moved cursor, and the \<open>int\<close> that the source returns is
  \<open>kvs_cursor_valid\<close> of it.\<close>

record KVSCursor =
  cur_node :: "nat option"
  cur_index :: int

definition leaf_next :: "BPNode list \<Rightarrow> nat \<Rightarrow> nat option" where
  "leaf_next ls n = (if Suc n < length ls then Some (Suc n) else None)"

definition leaf_prev :: "nat \<Rightarrow> nat option" where
  "leaf_prev n = (if 0 < n then Some (n - 1) else None)"

definition kvs_cursor_new :: KVSCursor where
  "kvs_cursor_new = \<lparr>cur_node = None, cur_index = 0\<rparr>"

definition kvs_cursor_valid :: "KVS \<Rightarrow> KVSCursor \<Rightarrow> bool" where
  "kvs_cursor_valid db cur =
     (case cur_node cur of
        None \<Rightarrow> False
      | Some n \<Rightarrow> cur_index cur \<ge> 0 \<and>
                  cur_index cur < int (num_keys (leaf_nodes (root db) ! n)))"

text \<open>The body and the condition of the \<open>do ... while\<close> of \<open>kvs_cursor_next\<close>.\<close>

function cursor_next_loop :: "BPNode list \<Rightarrow> nat \<Rightarrow> int \<Rightarrow> nat option \<times> int" where
  "cursor_next_loop ls n i =
     (if i + 1 \<ge> int (num_keys (ls ! n)) then
        (case leaf_next ls n of
           None \<Rightarrow> (None, 0)
         | Some m \<Rightarrow>
             (if 0 < int (num_keys (ls ! m)) \<and> edeleted (entries (ls ! m) ! 0)
              then cursor_next_loop ls m 0 else (Some m, 0)))
      else
        (if edeleted (entries (ls ! n) ! nat (i + 1))
         then cursor_next_loop ls n (i + 1) else (Some n, i + 1)))"
  by pat_completeness auto
termination
  by (relation "measures [\<lambda>(ls, n, i). length ls - n,
                          \<lambda>(ls, n, i). nat (int (num_keys (ls ! n)) - i)]")
     (auto simp: leaf_next_def split: if_splits)

declare cursor_next_loop.simps [simp del]

definition kvs_cursor_next :: "KVS \<Rightarrow> KVSCursor \<Rightarrow> KVSCursor" where
  "kvs_cursor_next db cur =
     (case cur_node cur of
        None \<Rightarrow> cur
      | Some n \<Rightarrow>
          (let r = cursor_next_loop (leaf_nodes (root db)) n (cur_index cur)
           in \<lparr>cur_node = fst r, cur_index = snd r\<rparr>))"

function cursor_prev_loop :: "BPNode list \<Rightarrow> nat \<Rightarrow> int \<Rightarrow> nat option \<times> int" where
  "cursor_prev_loop ls n i =
     (if i - 1 < 0 then
        (case leaf_prev n of
           None \<Rightarrow> (None, i - 1)
         | Some m \<Rightarrow>
             (if int (num_keys (ls ! m)) - 1 \<ge> 0 \<and>
                 edeleted (entries (ls ! m) ! nat (int (num_keys (ls ! m)) - 1))
              then cursor_prev_loop ls m (int (num_keys (ls ! m)) - 1)
              else (Some m, int (num_keys (ls ! m)) - 1)))
      else
        (if edeleted (entries (ls ! n) ! nat (i - 1))
         then cursor_prev_loop ls n (i - 1) else (Some n, i - 1)))"
  by pat_completeness auto
termination
  by (relation "measures [\<lambda>(ls, n, i). n, \<lambda>(ls, n, i). nat (i + 1)]")
     (auto simp: leaf_prev_def split: if_splits)

declare cursor_prev_loop.simps [simp del]

definition kvs_cursor_prev :: "KVS \<Rightarrow> KVSCursor \<Rightarrow> KVSCursor" where
  "kvs_cursor_prev db cur =
     (case cur_node cur of
        None \<Rightarrow> cur
      | Some n \<Rightarrow>
          (let r = cursor_prev_loop (leaf_nodes (root db)) n (cur_index cur)
           in \<lparr>cur_node = fst r, cur_index = snd r\<rparr>))"

text \<open>The condition of the \<open>while\<close> of \<open>kvs_cursor_first\<close>.\<close>

definition on_tombstone :: "KVS \<Rightarrow> KVSCursor \<Rightarrow> bool" where
  "on_tombstone db cur =
     (case cur_node cur of
        None \<Rightarrow> False
      | Some n \<Rightarrow> cur_index cur < int (num_keys (leaf_nodes (root db) ! n)) \<and>
                  edeleted (entries (leaf_nodes (root db) ! n) ! nat (cur_index cur)))"

lemma cursor_next_loop_stops:
  "cursor_next_loop ls n i = (Some m, j) \<Longrightarrow>
     \<not> (j < int (num_keys (ls ! m)) \<and> edeleted (entries (ls ! m) ! nat j))"
proof (induction ls n i rule: cursor_next_loop.induct)
  case (1 ls n i)
  show ?case
  proof (cases "i + 1 \<ge> int (num_keys (ls ! n))")
    case True
    show ?thesis
    proof (cases "leaf_next ls n")
      case None
      then show ?thesis using "1.prems" True by (simp add: cursor_next_loop.simps [of ls n i])
    next
      case (Some m')
      show ?thesis
      proof (cases "0 < int (num_keys (ls ! m')) \<and> edeleted (entries (ls ! m') ! 0)")
        case t: True
        then have "cursor_next_loop ls n i = cursor_next_loop ls m' 0"
          using True Some by (simp add: cursor_next_loop.simps [of ls n i])
        then show ?thesis using "1.IH"(1) [OF True Some t] "1.prems" by simp
      next
        case f: False
        then have nf: "(0 < int (num_keys (ls ! m')) \<and> edeleted (entries (ls ! m') ! 0)) = False"
          by simp
        have "cursor_next_loop ls n i = (Some m', 0)"
          using True Some by (simp only: cursor_next_loop.simps [of ls n i] nf if_True if_False option.case)
        then show ?thesis using f "1.prems" by auto
      qed
    qed
  next
    case False
    show ?thesis
    proof (cases "edeleted (entries (ls ! n) ! nat (i + 1))")
      case t: True
      then have "cursor_next_loop ls n i = cursor_next_loop ls n (i + 1)"
        using False by (simp add: cursor_next_loop.simps [of ls n i])
      then show ?thesis using "1.IH"(2) [OF False t] "1.prems" by simp
    next
      case f: False
      then have "cursor_next_loop ls n i = (Some n, i + 1)"
        using False by (simp add: cursor_next_loop.simps [of ls n i])
      then show ?thesis using f "1.prems" by auto
    qed
  qed
qed

lemma next_leaves_tombstone:
  assumes t: "on_tombstone db cur"
  shows "\<not> on_tombstone db (kvs_cursor_next db cur)"
proof -
  obtain n where n: "cur_node cur = Some n"
    using t by (cases "cur_node cur") (simp_all add: on_tombstone_def)
  obtain r j where r: "cursor_next_loop (leaf_nodes (root db)) n (cur_index cur) = (r, j)"
    by (cases "cursor_next_loop (leaf_nodes (root db)) n (cur_index cur)") auto
  show ?thesis
  proof (cases r)
    case None
    then show ?thesis by (simp add: kvs_cursor_next_def n r on_tombstone_def)
  next
    case (Some m)
    then show ?thesis
      using cursor_next_loop_stops [of "leaf_nodes (root db)" n "cur_index cur" m j] r
      by (simp add: kvs_cursor_next_def n on_tombstone_def)
  qed
qed

function first_loop :: "KVS \<Rightarrow> KVSCursor \<Rightarrow> KVSCursor" where
  "first_loop db cur = (if on_tombstone db cur then first_loop db (kvs_cursor_next db cur) else cur)"
  by pat_completeness auto
termination
  by (relation "measure (\<lambda>(db, cur). if on_tombstone db cur then 1 else 0)")
     (auto simp: next_leaves_tombstone)

declare first_loop.simps [simp del]

definition kvs_cursor_first :: "KVS \<Rightarrow> KVSCursor \<Rightarrow> KVSCursor" where
  "kvs_cursor_first db cur = first_loop db \<lparr>cur_node = Some 0, cur_index = 0\<rparr>"

text \<open>The condition of the \<open>while\<close> of \<open>kvs_cursor_last\<close>: \<open>index >= 0\<close> and the entry
  at the index is tombstoned. The source reads \<open>cur->node\<close> without a test; whenever
  \<open>kvs_cursor_prev\<close> has set it to \<open>NULL\<close> the index is negative.\<close>

definition before_tombstone :: "KVS \<Rightarrow> KVSCursor \<Rightarrow> bool" where
  "before_tombstone db cur =
     (cur_index cur \<ge> 0 \<and>
      (case cur_node cur of
         None \<Rightarrow> False
       | Some n \<Rightarrow> edeleted (entries (leaf_nodes (root db) ! n) ! nat (cur_index cur))))"

lemma cursor_prev_loop_stops:
  "cursor_prev_loop ls n i = (r, j) \<Longrightarrow>
     (r = None \<longrightarrow> j < 0) \<and>
     (\<forall>m. r = Some m \<longrightarrow> \<not> (j \<ge> 0 \<and> edeleted (entries (ls ! m) ! nat j)))"
proof (induction ls n i rule: cursor_prev_loop.induct)
  case (1 ls n i)
  show ?case
  proof (cases "i - 1 < 0")
    case True
    show ?thesis
    proof (cases "leaf_prev n")
      case None
      then show ?thesis using "1.prems" True by (simp add: cursor_prev_loop.simps [of ls n i])
    next
      case (Some m')
      show ?thesis
      proof (cases "int (num_keys (ls ! m')) - 1 \<ge> 0 \<and>
                 edeleted (entries (ls ! m') ! nat (int (num_keys (ls ! m')) - 1))")
        case t: True
        then have "cursor_prev_loop ls n i = cursor_prev_loop ls m' (int (num_keys (ls ! m')) - 1)"
          using True Some by (simp add: cursor_prev_loop.simps [of ls n i])
        then show ?thesis using "1.IH"(1) [OF True Some t] "1.prems" by simp
      next
        case f: False
        then have nf: "(int (num_keys (ls ! m')) - 1 \<ge> 0 \<and>
                 edeleted (entries (ls ! m') ! nat (int (num_keys (ls ! m')) - 1))) = False"
          by simp
        have "cursor_prev_loop ls n i = (Some m', int (num_keys (ls ! m')) - 1)"
          using True Some
          by (simp only: cursor_prev_loop.simps [of ls n i] nf if_True if_False option.case)
        then show ?thesis using f "1.prems" by auto
      qed
    qed
  next
    case False
    show ?thesis
    proof (cases "edeleted (entries (ls ! n) ! nat (i - 1))")
      case t: True
      then have "cursor_prev_loop ls n i = cursor_prev_loop ls n (i - 1)"
        using False by (simp add: cursor_prev_loop.simps [of ls n i])
      then show ?thesis using "1.IH"(2) [OF False t] "1.prems" by simp
    next
      case f: False
      then have "cursor_prev_loop ls n i = (Some n, i - 1)"
        using False by (simp add: cursor_prev_loop.simps [of ls n i])
      then show ?thesis using f "1.prems" by auto
    qed
  qed
qed

lemma prev_leaves_tombstone:
  assumes t: "before_tombstone db cur"
  shows "\<not> before_tombstone db (kvs_cursor_prev db cur)"
proof -
  obtain n where n: "cur_node cur = Some n"
    using t by (cases "cur_node cur") (simp_all add: before_tombstone_def)
  obtain r j where r: "cursor_prev_loop (leaf_nodes (root db)) n (cur_index cur) = (r, j)"
    by (cases "cursor_prev_loop (leaf_nodes (root db)) n (cur_index cur)") auto
  show ?thesis
    using cursor_prev_loop_stops [OF r]
    by (cases r) (simp_all add: kvs_cursor_prev_def n r before_tombstone_def)
qed

function last_loop :: "KVS \<Rightarrow> KVSCursor \<Rightarrow> KVSCursor" where
  "last_loop db cur =
     (if before_tombstone db cur then last_loop db (kvs_cursor_prev db cur) else cur)"
  by pat_completeness auto
termination
  by (relation "measure (\<lambda>(db, cur). if before_tombstone db cur then 1 else 0)")
     (auto simp: prev_leaves_tombstone)

declare last_loop.simps [simp del]

text \<open>The descent \<open>n = n->children[n->num_keys]\<close> from the root ends in the last leaf of
  the chain.\<close>

definition kvs_cursor_last :: "KVS \<Rightarrow> KVSCursor \<Rightarrow> KVSCursor" where
  "kvs_cursor_last db cur =
     (let n = length (leaf_nodes (root db)) - 1
      in last_loop db \<lparr>cur_node = Some n,
                       cur_index = int (num_keys (leaf_nodes (root db) ! n)) - 1\<rparr>)"

definition kvs_cursor_seek :: "KVS \<Rightarrow> KVSCursor \<Rightarrow> byte list \<Rightarrow> KVSCursor" where
  "kvs_cursor_seek db cur key =
     (let k = take (strlen key) key;
          n = find_leaf_ptr (root db) k;
          leaf = find_leaf (root db) k;
          idx = leaf_find_pos leaf k
      in if idx \<ge> num_keys leaf
         then \<lparr>cur_node = leaf_next (leaf_nodes (root db)) n, cur_index = 0\<rparr>
         else \<lparr>cur_node = Some n, cur_index = int idx\<rparr>)"

definition kvs_cursor_key :: "KVS \<Rightarrow> KVSCursor \<Rightarrow> byte list option" where
  "kvs_cursor_key db cur =
     (if \<not> kvs_cursor_valid db cur then None
      else Some (keys (leaf_nodes (root db) ! the (cur_node cur)) ! nat (cur_index cur)))"

definition kvs_cursor_value :: "KVS \<Rightarrow> KVSCursor \<Rightarrow> byte list option" where
  "kvs_cursor_value db cur =
     (if \<not> kvs_cursor_valid db cur then None
      else Some (evalue (entries (leaf_nodes (root db) ! the (cur_node cur)) ! nat (cur_index cur))))"

text \<open>The tombstone flag of the entry under a valid cursor (not an operation of the
  source; it says what the accessors are returning).\<close>

definition cursor_on_deleted :: "KVS \<Rightarrow> KVSCursor \<Rightarrow> bool" where
  "cursor_on_deleted db cur =
     (kvs_cursor_valid db cur \<and>
      edeleted (entries (leaf_nodes (root db) ! the (cur_node cur)) ! nat (cur_index cur)))"

subsection \<open>Range\<close>

text \<open>\<open>kvs_range\<close>: the list of the callback's arguments \<open>(key, val)\<close>, in call order. The
  loop may not end when a cursor points outside the chain, which no cursor motion
  produces; it is defined as a partial function and \<open>None\<close> stands for a run without end.\<close>

partial_function (option) range_loop :: "KVS \<Rightarrow> byte list \<Rightarrow> KVSCursor \<Rightarrow> (byte list \<times> byte list) list option" where
  "range_loop db to cur =
     (if kvs_cursor_valid db cur then
        (let key = the (kvs_cursor_key db cur)
         in if keycmp key to > 0 then Some []
            else
              Option.bind (range_loop db to (kvs_cursor_next db cur))
                (\<lambda>rest. Some ((key, the (kvs_cursor_value db cur)) # rest)))
      else Some [])"

definition kvs_range :: "KVS \<Rightarrow> byte list \<Rightarrow> byte list \<Rightarrow> (byte list \<times> byte list) list option" where
  "kvs_range db from to =
     range_loop db (take (strlen to) to) (kvs_cursor_seek db kvs_cursor_new from)"



subsection \<open>Persistence\<close>

text \<open>
  A file is the list of its bytes. Integers are written as the little-endian bytes of the
  variable, \<open>size_t\<close> in 8 bytes (LP64). \<open>fopen\<close> and \<open>malloc\<close> are taken to succeed.

  No result of \<open>fread\<close> is tested by \<open>kvs_load\<close>. What the code does after a read that
  meets the end of the file depends on memory that the program has not written:
  \<^item> a short read into a variable (\<open>magic\<close>, \<open>count\<close>, \<open>bloom_bits\<close>, \<open>klen\<close>, \<open>vlen\<close>) leaves
    it with an indeterminate value; the model stops there with \<open>LoadUnspecified\<close>, which
    says nothing about what the code does;
  \<^item> a short read into a fresh \<open>malloc\<close> block (the bit vector, a key, a value) leaves the
    block with indeterminate bytes, and the code goes on with them whatever they are;
    they are the parameter \<open>junk\<close>, which gives every byte of every block: block 0 is the
    bit vector, blocks \<open>2 * i + 1\<close> and \<open>2 * i + 2\<close> are the key and the value of entry \<open>i\<close>.

  \<open>LoadUnspecified\<close> is also the result where the code leaves defined behaviour: for
  \<open>klen = 2 ^ 32 - 1\<close> or \<open>vlen = 2 ^ 32 - 1\<close>, where \<open>malloc(klen + 1)\<close> is \<open>malloc(0)\<close>, and
  for a \<open>bloom_bits\<close> field that is 0 or no multiple of 8, where \<open>bloom_add\<close> and
  \<open>bloom_maybe\<close> divide by zero or index past the \<open>bloom_bits / 8\<close> bytes of the bit
  vector. Every store of the model therefore has \<open>bloom_bits > 0\<close>: \<open>kvs_open\<close> sets
  \<open>2 ^ 20\<close>, growth multiplies it, and \<open>kvs_load\<close> returns no store otherwise.
\<close>

fun le_bytes :: "nat \<Rightarrow> nat \<Rightarrow> byte list" where
  "le_bytes 0 v = []"
| "le_bytes (Suc n) v = word_of_nat (v mod 256) # le_bytes n (v div 256)"

fun le_val :: "byte list \<Rightarrow> nat" where
  "le_val [] = 0"
| "le_val (b # bs) = unat b + 256 * le_val bs"

definition KVS_MAGIC :: nat where
  "KVS_MAGIC = 0x54504253"

text \<open>Byte \<open>i\<close> of the bit vector: bit \<open>b\<close> of it is bit \<open>8 * i + b\<close> of the filter.\<close>

definition bloom_byte :: "nat set \<Rightarrow> nat \<Rightarrow> byte" where
  "bloom_byte s i =
     word_of_nat (sum_list (map (\<lambda>b. if 8 * i + b \<in> s then 2 ^ b else 0) [0..<8]))"

definition bloom_bytes :: "KVS \<Rightarrow> byte list" where
  "bloom_bytes db = map (bloom_byte (bloom db)) [0..<bloom_bits db div 8]"

definition bits_of_bytes :: "byte list \<Rightarrow> nat set" where
  "bits_of_bytes bs = set (filter (\<lambda>p. bit (bs ! (p div 8)) (p mod 8)) [0..<8 * length bs])"

definition save_entry :: "Entry \<Rightarrow> byte list" where
  "save_entry e =
     le_bytes 4 (length (ekey e)) @ le_bytes 4 (length (evalue e)) @ ekey e @ evalue e"

text \<open>The bytes that \<open>kvs_save\<close> writes; it returns \<open>KVS_OK\<close>.\<close>

definition kvs_save :: "KVS \<Rightarrow> byte list" where
  "kvs_save db =
     le_bytes 4 KVS_MAGIC @ le_bytes 8 (count db) @ le_bytes 8 (bloom_bits db) @
     bloom_bytes db @
     concat (map (\<lambda>ke. save_entry (snd ke))
                 (filter (\<lambda>ke. \<not> edeleted (snd ke)) (chain_slots (root db))))"

datatype LoadResult = LoadNull | Loaded KVS | LoadUnspecified

text \<open>\<open>fread_var n s\<close>: read the \<open>n\<close> bytes of a variable from the stream \<open>s\<close>; the result is
  the bytes read and the rest of the stream, or \<open>None\<close> when the stream is short.\<close>

definition fread_var :: "nat \<Rightarrow> byte list \<Rightarrow> (byte list \<times> byte list) option" where
  "fread_var n s = (if length s < n then None else Some (take n s, drop n s))"

text \<open>\<open>fread_buf prior n s\<close>: read \<open>n\<close> bytes into a fresh block; \<open>prior\<close> is what the block
  holds after a short read.\<close>

definition fread_buf :: "byte list \<Rightarrow> nat \<Rightarrow> byte list \<Rightarrow> byte list \<times> byte list" where
  "fread_buf prior n s = (if length s < n then (prior, []) else (take n s, drop n s))"

definition block :: "(nat \<Rightarrow> nat \<Rightarrow> byte) \<Rightarrow> nat \<Rightarrow> nat \<Rightarrow> byte list" where
  "block junk b n = map (junk b) [0..<n]"

text \<open>The loop over the entries: \<open>i\<close> is the loop variable, \<open>n\<close> the number of iterations
  left.\<close>

fun load_entries :: "(nat \<Rightarrow> nat \<Rightarrow> byte) \<Rightarrow> nat \<Rightarrow> nat \<Rightarrow> byte list \<Rightarrow> KVS \<Rightarrow> KVS option" where
  "load_entries junk i 0 s db = Some db"
| "load_entries junk i (Suc n) s db =
     (case fread_var 4 s of
        None \<Rightarrow> None
      | Some r1 \<Rightarrow>
          (case fread_var 4 (snd r1) of
             None \<Rightarrow> None
           | Some r2 \<Rightarrow>
               (let klen = le_val (fst r1);
                    vlen = le_val (fst r2)
                in if klen = 2 ^ 32 - 1 \<or> vlen = 2 ^ 32 - 1 then None
                   else
                     (let r3 = fread_buf (block junk (2 * i + 1) klen) klen (snd r2);
                          r4 = fread_buf (block junk (2 * i + 2) vlen) vlen (snd r3)
                      in load_entries junk (Suc i) n (snd r4)
                           (snd (kvs_put_raw db (fst r3) (fst r4)))))))"

definition kvs_load :: "(nat \<Rightarrow> nat \<Rightarrow> byte) \<Rightarrow> byte list \<Rightarrow> LoadResult" where
  "kvs_load junk f =
     (case fread_var 4 f of
        None \<Rightarrow> LoadUnspecified
      | Some r1 \<Rightarrow>
          if le_val (fst r1) \<noteq> KVS_MAGIC then LoadNull
          else
            (case fread_var 8 (snd r1) of
               None \<Rightarrow> LoadUnspecified
             | Some r2 \<Rightarrow>
                 (case fread_var 8 (snd r2) of
                    None \<Rightarrow> LoadUnspecified
                  | Some r3 \<Rightarrow>
                      (let bits = le_val (fst r3)
                       in if bits = 0 \<or> bits mod 8 \<noteq> 0 then LoadUnspecified
                          else
                            (let r4 = fread_buf (block junk 0 (bits div 8)) (bits div 8) (snd r3)
                             in case load_entries junk 0 (le_val (fst r2)) (snd r4)
                                       (kvs_open\<lparr>bloom_bits := bits,
                                                 bloom := bits_of_bytes (fst r4)\<rparr>) of
                                  None \<Rightarrow> LoadUnspecified
                                | Some db \<Rightarrow> Loaded db)))))"

section \<open>Invariants of the tree\<close>

text \<open>The ordering that the claims state: in every node, leaf or internal, the key array
  is strictly increasing under \<open>keycmp\<close>.\<close>

fun keys_increasing :: "BPNode \<Rightarrow> bool" where
  "keys_increasing (Leaf kes) =
     sorted_wrt (\<lambda>a b. keycmp a b < 0) (keys (Leaf kes))"
| "keys_increasing (Internal c0 kcs) =
     (sorted_wrt (\<lambda>a b. keycmp a b < 0) (keys (Internal c0 kcs)) \<and>
      keys_increasing c0 \<and> (\<forall>kc\<in>set kcs. keys_increasing (snd kc)))"

text \<open>All keys stored in a subtree: separators and leaf keys.\<close>

fun tree_keys :: "BPNode \<Rightarrow> byte list set" where
  "tree_keys (Leaf kes) = fst ` set kes"
| "tree_keys (Internal c0 kcs) =
     fst ` set kcs \<union> tree_keys c0 \<union> (\<Union>kc\<in>set kcs. tree_keys (snd kc))"

text \<open>Separator \<open>keys[i]\<close> lies above everything in \<open>children[i]\<close> and at or below
  everything in \<open>children[i + 1]\<close>.\<close>

fun seps_ok :: "BPNode \<Rightarrow> (byte list \<times> BPNode) list \<Rightarrow> bool" where
  "seps_ok c [] = True"
| "seps_ok c (kc # rest) =
     ((\<forall>x\<in>tree_keys c. x < fst kc) \<and> (\<forall>x\<in>tree_keys (snd kc). fst kc \<le> x) \<and>
      seps_ok (snd kc) rest)"

text \<open>The search-tree invariant, in the lexicographic order on byte lists (which is the
  order of \<open>keycmp\<close>, see \<open>keycmp_less\<close>): keys strictly increasing in every node, the
  separators bounding the subtrees, and every leaf slot's key being the key of its entry.\<close>

fun bp_sorted :: "BPNode \<Rightarrow> bool" where
  "bp_sorted (Leaf kes) =
     (sorted_wrt (<) (map fst kes) \<and> (\<forall>ke\<in>set kes. ekey (snd ke) = fst ke))"
| "bp_sorted (Internal c0 kcs) =
     (sorted_wrt (<) (map fst kcs) \<and> seps_ok c0 kcs \<and> bp_sorted c0 \<and>
      (\<forall>kc\<in>set kcs. bp_sorted (snd kc)))"

text \<open>No node exceeds the capacity of the arrays \<open>keys[ORDER - 1]\<close>: between operations
  every node holds fewer than \<open>ORDER - 1\<close> keys.\<close>

fun bp_fits :: "BPNode \<Rightarrow> bool" where
  "bp_fits (Leaf kes) = (length kes < ORDER - 1)"
| "bp_fits (Internal c0 kcs) =
     (length kcs < ORDER - 1 \<and> bp_fits c0 \<and> (\<forall>kc\<in>set kcs. bp_fits (snd kc)))"

text \<open>What an insertion does to the sorted sequence of slots of the leaf chain: a live
  entry with the key has its value replaced, a tombstoned one is replaced by the new entry,
  otherwise the new entry is put in at its place.\<close>

fun slot_put :: "byte list \<Rightarrow> Entry \<Rightarrow> (byte list \<times> Entry) list \<Rightarrow> (byte list \<times> Entry) list" where
  "slot_put k e [] = [(k, e)]"
| "slot_put k e (ke # xs) =
     (if fst ke < k then ke # slot_put k e xs
      else if fst ke = k then
        (if edeleted (snd ke) then (fst ke, e)
         else (fst ke, (snd ke)\<lparr>evalue := evalue e\<rparr>)) # xs
      else (k, e) # ke # xs)"

fun res_slots :: "InsResult \<Rightarrow> (byte list \<times> Entry) list" where
  "res_slots (NoSplit t) = chain_slots t"
| "res_slots (Split l u r) = chain_slots l @ chain_slots r"

fun res_keys :: "InsResult \<Rightarrow> byte list set" where
  "res_keys (NoSplit t) = tree_keys t"
| "res_keys (Split l u r) = tree_keys l \<union> {u} \<union> tree_keys r"

fun res_sorted :: "InsResult \<Rightarrow> bool" where
  "res_sorted (NoSplit t) = bp_sorted t"
| "res_sorted (Split l u r) =
     (bp_sorted l \<and> bp_sorted r \<and> (\<forall>x\<in>tree_keys l. x < u) \<and> (\<forall>x\<in>tree_keys r. u \<le> x) \<and>
      tree_keys l \<noteq> {})"

fun res_fits :: "InsResult \<Rightarrow> bool" where
  "res_fits (NoSplit t) = bp_fits t"
| "res_fits (Split l u r) = (bp_fits l \<and> bp_fits r)"

text \<open>The root that \<open>kvs_put_raw\<close> is left with.\<close>

fun res_root :: "InsResult \<Rightarrow> BPNode" where
  "res_root (NoSplit n) = n"
| "res_root (Split l up_key r) = Internal l [(up_key, r)]"

text \<open>What a delete does to the slots: the entry with the key gets its tombstone flag.\<close>

definition slot_delete :: "byte list \<Rightarrow> (byte list \<times> Entry) list \<Rightarrow> (byte list \<times> Entry) list" where
  "slot_delete k xs =
     map (\<lambda>ke. if fst ke = k then (fst ke, (snd ke)\<lparr>edeleted := True\<rparr>) else ke) xs"

section \<open>Invariants of the store\<close>

definition live :: "byte list \<times> Entry \<Rightarrow> bool" where
  "live ke = (\<not> edeleted (snd ke))"

text \<open>The number of non-tombstoned entries reachable from the root.\<close>

definition live_count :: "BPNode \<Rightarrow> nat" where
  "live_count r = length (filter live (chain_slots r))"

text \<open>Arena bytes that the entry of a slot accounts for: its record, its key copy and its
  value copy, each rounded up as \<open>pool_alloc\<close> does.\<close>

definition slot_cost :: "byte list \<times> Entry \<Rightarrow> nat" where
  "slot_cost ke =
     ((sizeof_Entry + 7) div 8) * 8 + ((length (ekey (snd ke)) + 1 + 7) div 8) * 8 +
     ((length (evalue (snd ke)) + 1 + 7) div 8) * 8"

definition pool_ok :: "KVS \<Rightarrow> bool" where
  "pool_ok db =
     (sum_list (map slot_cost (chain_slots (root db))) \<le> pool_pos db \<and>
      pool_pos db \<le> pool_size db \<and> pool_size db = KVS_DEFAULT_POOL_SIZE)"

text \<open>The bit positions of a key in a filter of \<open>bits\<close> bits.\<close>

definition bloom_positions :: "nat \<Rightarrow> byte list \<Rightarrow> nat set" where
  "bloom_positions bits k =
     {unat (fnv1a k) mod bits, unat (hash2 k) mod bits, unat (hash3 k) mod bits}"

definition bloom_covers :: "KVS \<Rightarrow> bool" where
  "bloom_covers db = (\<forall>ke\<in>set (chain_slots (root db)). live ke \<longrightarrow> bloom_maybe db (fst ke))"

definition kvs_inv :: "KVS \<Rightarrow> bool" where
  "kvs_inv db =
     (bp_sorted (root db) \<and> count db = live_count (root db) \<and> pool_ok db \<and> bloom_covers db)"

text \<open>The states that a fresh store reaches by puts and deletes (a get does not change the
  store). A put that fails with out-of-memory is a step too: it moves \<open>pool_pos\<close>.\<close>

inductive reachable :: "KVS \<Rightarrow> bool" where
  reach_open: "reachable kvs_open"
| reach_put: "reachable db \<Longrightarrow> reachable (snd (kvs_put_raw db k v))"
| reach_delete: "reachable db \<Longrightarrow> reachable (snd (kvs_delete db key))"

text \<open>The puts that \<open>kvs_load\<close> makes for the entries of a file, in file order.\<close>

definition replay :: "Entry list \<Rightarrow> KVS \<Rightarrow> KVS" where
  "replay es d = fold (\<lambda>e d. snd (kvs_put_raw d (ekey e) (evalue e))) es d"

text \<open>The counter \<open>bloom_set_bits\<close> is the number of set bits of the bit vector.\<close>

definition bloom_counted :: "KVS \<Rightarrow> bool" where
  "bloom_counted d = (finite (bloom d) \<and> bloom_set_bits d = card (bloom d))"

section \<open>Stores for concrete runs\<close>

text \<open>Decimal keys \<open>000\<close> ... \<open>999\<close>, each with the value \<open>1\<close>, put in ascending order into an
  empty store.\<close>

definition digits3 :: "nat \<Rightarrow> byte list" where
  "digits3 i = [word_of_nat (48 + i div 100), word_of_nat (48 + i div 10 mod 10),
                word_of_nat (48 + i mod 10)]"

definition numbered :: "nat \<Rightarrow> Entry list" where
  "numbered n = map (\<lambda>i. \<lparr>ekey = digits3 i, evalue = [49], edeleted = False\<rparr>) [0..<n]"

definition nslots :: "nat \<Rightarrow> nat \<Rightarrow> (byte list \<times> Entry) list" where
  "nslots a b =
     map (\<lambda>i. (digits3 i, \<lparr>ekey = digits3 i, evalue = [49], edeleted = False\<rparr>)) [a..<b]"

definition empty_store :: "KVS \<Rightarrow> bool" where
  "empty_store d =
     (root d = Leaf [] \<and> count d = 0 \<and> pool_pos d = 0 \<and> pool_size d = KVS_DEFAULT_POOL_SIZE)"

text \<open>A file with the magic number, the count 0, a filter of 8 bits, all clear, and no
  entry, and the store that \<open>kvs_load\<close> returns for it.\<close>

definition file8 :: "byte list" where
  "file8 = [83, 66, 80, 84, 0, 0, 0, 0, 0, 0, 0, 0, 8, 0, 0, 0, 0, 0, 0, 0, 0]"

definition store8 :: KVS where
  "store8 = kvs_open\<lparr>bloom_bits := 8, bloom := {}\<rparr>"

section \<open>Order of keys and binary search\<close>

lemma memcmp_characterisation:
  "n \<le> length a \<Longrightarrow> n \<le> length b \<Longrightarrow>
   memcmp a b n = (if take n a < take n b then - 1 else if take n a = take n b then 0 else 1)"
proof (induction a b n rule: memcmp.induct)
  case (1 a as b bs n)
  show ?case
  proof (cases n)
    case 0
    then show ?thesis by simp
  next
    case (Suc m)
    then show ?thesis using 1 by (auto simp: not_less)
  qed
qed simp_all

lemma take_less_iff:
  fixes a b :: "byte list"
  shows "a < b \<longleftrightarrow> take (min (length a) (length b)) a < take (min (length a) (length b)) b \<or>
     (take (min (length a) (length b)) a = take (min (length a) (length b)) b \<and> length a < length b)"
proof (induction a arbitrary: b)
  case Nil
  then show ?case by (cases b) auto
next
  case (Cons x xs)
  show ?case
  proof (cases b)
    case Nil
    then show ?thesis by simp
  next
    case (Cons y ys)
    then show ?thesis using Cons.IH [of ys] by auto
  qed
qed

lemma take_min_eq_iff:
  "(take (min (length a) (length b)) a = take (min (length a) (length b)) b \<and> length a = length b) \<longleftrightarrow> a = b"
  by (metis min.idem order_refl take_all)

lemma keycmp_eq:
  "keycmp a b = (if a < b then - 1 else if a = b then 0 else 1)"
proof -
  define n where "n = min (length a) (length b)"
  have m: "memcmp a b n = (if take n a < take n b then - 1 else if take n a = take n b then 0 else 1)"
    by (rule memcmp_characterisation) (simp_all add: n_def)
  have l: "a < b \<longleftrightarrow> take n a < take n b \<or> (take n a = take n b \<and> length a < length b)"
    unfolding n_def by (rule take_less_iff)
  have e: "(take n a = take n b \<and> length a = length b) \<longleftrightarrow> a = b"
    unfolding n_def by (rule take_min_eq_iff)
  have n': "(if length a < length b then length a else length b) = n"
    by (simp add: n_def min_def)
  show ?thesis
    unfolding keycmp_def Let_def n' m using l e by (auto simp: not_less)
qed

lemma keycmp_less [simp]: "keycmp a b < 0 \<longleftrightarrow> a < b"
  by (simp add: keycmp_eq)

lemma keycmp_le [simp]: "keycmp a b \<le> 0 \<longleftrightarrow> a \<le> b"
  by (auto simp: keycmp_eq)

lemma keycmp_zero [simp]: "keycmp a b = 0 \<longleftrightarrow> a = b"
  by (auto simp: keycmp_eq)

lemma bsearch_lt_spec:
  assumes "sorted_wrt (<) ks" "lo \<le> hi" "hi \<le> length ks"
    and "\<forall>i<lo. ks ! i < k" and "\<forall>i. hi \<le> i \<and> i < length ks \<longrightarrow> k \<le> ks ! i"
  shows "(\<forall>i<bsearch_lt ks k lo hi. ks ! i < k) \<and>
         (\<forall>i. bsearch_lt ks k lo hi \<le> i \<and> i < length ks \<longrightarrow> k \<le> ks ! i)"
  using assms
proof (induction ks k lo hi rule: bsearch_lt.induct)
  case (1 ks k lo hi)
  show ?case
  proof (cases "lo < hi")
    case True
    define mid where "mid = (lo + hi) div 2"
    have m: "lo \<le> mid" "mid < hi" using True by (auto simp: mid_def)
    show ?thesis
    proof (cases "keycmp (ks ! mid) k < 0")
      case less: True
      have eq: "bsearch_lt ks k lo hi = bsearch_lt ks k (mid + 1) hi"
        using True less by (subst bsearch_lt.simps) (simp add: Let_def mid_def)
      have "\<forall>i<mid + 1. ks ! i < k"
      proof (intro allI impI)
        fix i assume "i < mid + 1"
        then have "i = mid \<or> i < mid" by auto
        then show "ks ! i < k"
        proof
          assume "i = mid" then show ?thesis using less by simp
        next
          assume "i < mid"
          then have "ks ! i < ks ! mid"
            using "1.prems"(1,3) m by (auto simp: sorted_wrt_iff_nth_less)
          then show ?thesis using less by simp
        qed
      qed
      moreover have "mid + 1 \<le> hi" using m by simp
      ultimately show ?thesis
        unfolding eq
        by (intro "1.IH"(1) [OF True mid_def less "1.prems"(1) _ "1.prems"(3) _ "1.prems"(5)])
    next
      case geq: False
      have eq: "bsearch_lt ks k lo hi = bsearch_lt ks k lo mid"
        using True geq by (subst bsearch_lt.simps) (simp add: Let_def mid_def)
      have "\<forall>i. mid \<le> i \<and> i < length ks \<longrightarrow> k \<le> ks ! i"
      proof (intro allI impI)
        fix i assume a: "mid \<le> i \<and> i < length ks"
        then have "i = mid \<or> mid < i" by auto
        then show "k \<le> ks ! i"
        proof
          assume "i = mid" then show ?thesis using geq by (simp add: not_less)
        next
          assume "mid < i"
          then have "ks ! mid < ks ! i"
            using "1.prems"(1) a by (auto simp: sorted_wrt_iff_nth_less)
          then show ?thesis using geq by (simp add: not_less)
        qed
      qed
      moreover have "mid \<le> length ks" using m "1.prems"(3) by simp
      ultimately show ?thesis
        unfolding eq
        by (intro "1.IH"(2) [OF True mid_def geq "1.prems"(1) m(1) _ "1.prems"(4)])
    qed
  next
    case False
    then have "bsearch_lt ks k lo hi = lo" by (simp add: bsearch_lt.simps)
    moreover have "lo = hi" using False "1.prems" by simp
    ultimately show ?thesis using "1.prems" by simp
  qed
qed

lemma bsearch_le_spec:
  assumes "sorted_wrt (<) ks" "lo \<le> hi" "hi \<le> length ks"
    and "\<forall>i<lo. ks ! i \<le> k" and "\<forall>i. hi \<le> i \<and> i < length ks \<longrightarrow> k < ks ! i"
  shows "(\<forall>i<bsearch_le ks k lo hi. ks ! i \<le> k) \<and>
         (\<forall>i. bsearch_le ks k lo hi \<le> i \<and> i < length ks \<longrightarrow> k < ks ! i)"
  using assms
proof (induction ks k lo hi rule: bsearch_le.induct)
  case (1 ks k lo hi)
  show ?case
  proof (cases "lo < hi")
    case True
    define mid where "mid = (lo + hi) div 2"
    have m: "lo \<le> mid" "mid < hi" using True by (auto simp: mid_def)
    show ?thesis
    proof (cases "keycmp (ks ! mid) k \<le> 0")
      case less: True
      have eq: "bsearch_le ks k lo hi = bsearch_le ks k (mid + 1) hi"
        using True less by (subst bsearch_le.simps) (simp add: Let_def mid_def)
      have "\<forall>i<mid + 1. ks ! i \<le> k"
      proof (intro allI impI)
        fix i assume "i < mid + 1"
        then have "i = mid \<or> i < mid" by auto
        then show "ks ! i \<le> k"
        proof
          assume "i = mid" then show ?thesis using less by simp
        next
          assume "i < mid"
          then have "ks ! i < ks ! mid"
            using "1.prems"(1,3) m by (auto simp: sorted_wrt_iff_nth_less)
          then show ?thesis using less by simp
        qed
      qed
      moreover have "mid + 1 \<le> hi" using m by simp
      ultimately show ?thesis
        unfolding eq
        by (intro "1.IH"(1) [OF True mid_def less "1.prems"(1) _ "1.prems"(3) _ "1.prems"(5)])
    next
      case geq: False
      have eq: "bsearch_le ks k lo hi = bsearch_le ks k lo mid"
        using True geq by (subst bsearch_le.simps) (simp add: Let_def mid_def)
      have "\<forall>i. mid \<le> i \<and> i < length ks \<longrightarrow> k < ks ! i"
      proof (intro allI impI)
        fix i assume a: "mid \<le> i \<and> i < length ks"
        then have "i = mid \<or> mid < i" by auto
        then show "k < ks ! i"
        proof
          assume "i = mid" then show ?thesis using geq by (simp add: not_less)
        next
          assume "mid < i"
          then have "ks ! mid < ks ! i"
            using "1.prems"(1) a by (auto simp: sorted_wrt_iff_nth_less)
          then show ?thesis using geq by (simp add: not_less)
        qed
      qed
      moreover have "mid \<le> length ks" using m "1.prems"(3) by simp
      ultimately show ?thesis
        unfolding eq
        by (intro "1.IH"(2) [OF True mid_def geq "1.prems"(1) m(1) _ "1.prems"(4)])
    qed
  next
    case False
    then have "bsearch_le ks k lo hi = lo" by (simp add: bsearch_le.simps)
    moreover have "lo = hi" using False "1.prems" by simp
    ultimately show ?thesis using "1.prems" by simp
  qed
qed


lemma ball_take_nth:
  assumes "p \<le> length xs"
  shows "(\<forall>x\<in>set (take p xs). P x) \<longleftrightarrow> (\<forall>i<p. P (xs ! i))"
proof
  assume l: "\<forall>x\<in>set (take p xs). P x"
  show "\<forall>i<p. P (xs ! i)"
  proof (intro allI impI)
    fix i assume a: "i < p"
    then have "take p xs ! i \<in> set (take p xs)" using assms by (intro nth_mem) simp
    then show "P (xs ! i)" using l a by simp
  qed
next
  assume r: "\<forall>i<p. P (xs ! i)"
  show "\<forall>x\<in>set (take p xs). P x"
  proof
    fix x assume "x \<in> set (take p xs)"
    then obtain j where "j < length (take p xs)" "x = take p xs ! j"
      by (auto simp: in_set_conv_nth)
    then show "P x" using r by simp
  qed
qed

lemma ball_drop_nth: "(\<forall>x\<in>set (drop p xs). P x) \<longleftrightarrow> (\<forall>i. p \<le> i \<and> i < length xs \<longrightarrow> P (xs ! i))"
proof
  assume l: "\<forall>x\<in>set (drop p xs). P x"
  show "\<forall>i. p \<le> i \<and> i < length xs \<longrightarrow> P (xs ! i)"
  proof (intro allI impI)
    fix i assume a: "p \<le> i \<and> i < length xs"
    then have "i - p < length (drop p xs)" by auto
    then have "drop p xs ! (i - p) \<in> set (drop p xs)" by (rule nth_mem)
    then show "P (xs ! i)" using l a by simp
  qed
next
  assume r: "\<forall>i. p \<le> i \<and> i < length xs \<longrightarrow> P (xs ! i)"
  show "\<forall>x\<in>set (drop p xs). P x"
  proof
    fix x assume "x \<in> set (drop p xs)"
    then obtain j where "j < length (drop p xs)" "x = drop p xs ! j"
      by (auto simp: in_set_conv_nth)
    then show "P x" using r by simp
  qed
qed

lemma leaf_find_pos_spec:
  assumes "sorted_wrt (<) (keys n)"
  shows "leaf_find_pos n k \<le> num_keys n \<and>
         (\<forall>x\<in>set (take (leaf_find_pos n k) (keys n)). x < k) \<and>
         (\<forall>x\<in>set (drop (leaf_find_pos n k) (keys n)). k \<le> x)"
proof -
  have b: "leaf_find_pos n k \<le> length (keys n)"
    using leaf_find_pos_le [of n k] by (simp add: num_keys_def)
  have "(\<forall>i<bsearch_lt (keys n) k 0 (length (keys n)). keys n ! i < k) \<and>
        (\<forall>i. bsearch_lt (keys n) k 0 (length (keys n)) \<le> i \<and> i < length (keys n) \<longrightarrow> k \<le> keys n ! i)"
    by (rule bsearch_lt_spec [OF assms]) auto
  then show ?thesis
    using b by (simp add: ball_take_nth ball_drop_nth leaf_find_pos_def num_keys_def)
qed

lemma internal_find_pos_spec:
  assumes "sorted_wrt (<) (keys n)"
  shows "internal_find_pos n k \<le> num_keys n \<and>
         (\<forall>x\<in>set (take (internal_find_pos n k) (keys n)). x \<le> k) \<and>
         (\<forall>x\<in>set (drop (internal_find_pos n k) (keys n)). k < x)"
proof -
  have b: "internal_find_pos n k \<le> length (keys n)"
    using internal_find_pos_le [of n k] by (simp add: num_keys_def)
  have "(\<forall>i<bsearch_le (keys n) k 0 (length (keys n)). keys n ! i \<le> k) \<and>
        (\<forall>i. bsearch_le (keys n) k 0 (length (keys n)) \<le> i \<and> i < length (keys n) \<longrightarrow> k < keys n ! i)"
    by (rule bsearch_le_spec [OF assms]) auto
  then show ?thesis
    using b by (simp add: ball_take_nth ball_drop_nth internal_find_pos_def num_keys_def)
qed

section \<open>The slots of the leaf chain\<close>

lemma chain_slots_Leaf [simp]: "chain_slots (Leaf kes) = kes"
  by (simp add: chain_slots_def)

lemma chain_slots_Internal [simp]:
  "chain_slots (Internal c0 kcs) = chain_slots c0 @ concat (map (\<lambda>kc. chain_slots (snd kc)) kcs)"
  by (induction kcs) (simp_all add: chain_slots_def)

lemma slot_put_append_left:
  "\<forall>a\<in>set A. fst a < k \<Longrightarrow> slot_put k e (A @ X) = A @ slot_put k e X"
  by (induction A) auto

lemma slot_put_append_right:
  "\<forall>c\<in>set C. k < fst c \<Longrightarrow> slot_put k e (B @ C) = slot_put k e B @ C"
proof (induction B)
  case Nil
  then show ?case by (cases C) auto
next
  case (Cons b B)
  then show ?case by auto
qed

lemma slot_put_keys: "fst ` set (slot_put k e xs) = insert k (fst ` set xs)"
  by (induction xs) auto

lemma seps_ok_append:
  "seps_ok c (xs @ kc # ys) \<longleftrightarrow>
     seps_ok c xs \<and> (\<forall>x\<in>tree_keys (last (c # map snd xs)). x < fst kc) \<and>
     (\<forall>x\<in>tree_keys (snd kc). fst kc \<le> x) \<and> seps_ok (snd kc) ys"
  by (induction xs arbitrary: c) auto

lemma tree_keys_Internal_Cons:
  "tree_keys (Internal c0 (a # A)) = insert (fst a) (tree_keys c0 \<union> tree_keys (Internal (snd a) A))"
  by auto

lemma keys_below_sep:
  "seps_ok c0 (A @ [(u, c)]) \<Longrightarrow> sorted_wrt (<) (map fst A @ [u]) \<Longrightarrow>
     \<forall>x\<in>tree_keys (Internal c0 A). x < u"
proof (induction A arbitrary: c0)
  case Nil
  then show ?case by simp
next
  case (Cons a A)
  have "\<forall>x\<in>tree_keys (Internal (snd a) A). x < u"
    using Cons.prems by (intro Cons.IH) auto
  moreover have au: "fst a < u" using Cons.prems(2) by auto
  moreover have "\<forall>x\<in>tree_keys c0. x < fst a" using Cons.prems(1) by simp
  then have "\<forall>x\<in>tree_keys c0. x < u" using au by (meson less_trans)
  ultimately show ?case unfolding tree_keys_Internal_Cons by blast
qed

lemma keys_above_sep:
  "seps_ok c B \<Longrightarrow> \<forall>x\<in>tree_keys c. u \<le> x \<Longrightarrow> \<forall>kc\<in>set B. u \<le> fst kc \<Longrightarrow>
     \<forall>x\<in>tree_keys (Internal c B). u \<le> x"
proof (induction B arbitrary: c)
  case Nil
  then show ?case by simp
next
  case (Cons b B)
  have ub: "u \<le> fst b" using Cons.prems(3) by simp
  have "\<forall>x\<in>tree_keys (snd b). fst b \<le> x" using Cons.prems(1) by simp
  then have "\<forall>x\<in>tree_keys (snd b). u \<le> x"
    using ub by (meson order_trans)
  then have "\<forall>x\<in>tree_keys (Internal (snd b) B). u \<le> x"
    using Cons.prems by (intro Cons.IH) auto
  then show ?case unfolding tree_keys_Internal_Cons using ub Cons.prems(2) by blast
qed

lemma slots_keys_subset: "fst ` set (chain_slots t) \<subseteq> tree_keys t"
proof (induction t rule: tree_keys.induct)
  case (1 kes)
  show ?case by simp
next
  case (2 c0 kcs)
  have "fst ` set (concat (map (\<lambda>kc. chain_slots (snd kc)) kcs)) \<subseteq> (\<Union>kc\<in>set kcs. tree_keys (snd kc))"
  proof
    fix x assume "x \<in> fst ` set (concat (map (\<lambda>kc. chain_slots (snd kc)) kcs))"
    then obtain kc ke where k: "kc \<in> set kcs" "ke \<in> set (chain_slots (snd kc))" "x = fst ke"
      by auto
    then have "x \<in> tree_keys (snd kc)" using 2(2) [of kc] by blast
    then show "x \<in> (\<Union>kc\<in>set kcs. tree_keys (snd kc))" using k(1) by blast
  qed
  moreover have "fst ` set (chain_slots c0) \<subseteq> tree_keys c0" by (rule 2(1))
  ultimately show ?case
    unfolding chain_slots_Internal tree_keys.simps set_append image_Un by blast
qed

lemma chain_slots_Internal_Cons:
  "chain_slots (Internal c0 (a # A)) = chain_slots c0 @ chain_slots (Internal (snd a) A)"
  by simp

lemma concat_slots_sorted:
  assumes "\<forall>kc\<in>set kcs. sorted_wrt (<) (map fst (chain_slots (snd kc)))"
    and "sorted_wrt (<) (map fst (chain_slots c0))"
    and "seps_ok c0 kcs" and "sorted_wrt (<) (map fst kcs)"
  shows "sorted_wrt (<) (map fst (chain_slots (Internal c0 kcs)))"
  using assms
proof (induction kcs arbitrary: c0)
  case Nil
  then show ?case by simp
next
  case (Cons a A)
  have s: "sorted_wrt (<) (map fst (chain_slots (Internal (snd a) A)))"
    using Cons.prems by (intro Cons.IH) auto
  have "\<forall>x\<in>tree_keys (Internal (snd a) A). fst a \<le> x"
  proof (rule keys_above_sep)
    show "seps_ok (snd a) A" using Cons.prems(3) by simp
    show "\<forall>x\<in>tree_keys (snd a). fst a \<le> x" using Cons.prems(3) by simp
    show "\<forall>kc\<in>set A. fst a \<le> fst kc" using Cons.prems(4) by auto
  qed
  then have hi: "\<forall>y\<in>set (chain_slots (Internal (snd a) A)). fst a \<le> fst y"
    using slots_keys_subset [of "Internal (snd a) A"] by blast
  have "\<forall>x\<in>tree_keys c0. x < fst a" using Cons.prems(3) by simp
  then have lo: "\<forall>x\<in>set (chain_slots c0). fst x < fst a"
    using slots_keys_subset [of c0] by blast
  have "\<forall>x\<in>set (chain_slots c0). \<forall>y\<in>set (chain_slots (Internal (snd a) A)). fst x < fst y"
    using lo hi by (meson less_le_trans)
  then have "\<forall>x\<in>set (map fst (chain_slots c0)).
               \<forall>y\<in>set (map fst (chain_slots (Internal (snd a) A))). x < y"
    unfolding set_map by blast
  then have "sorted_wrt (<) (map fst (chain_slots c0) @ map fst (chain_slots (Internal (snd a) A)))"
    unfolding sorted_wrt_append using s Cons.prems(2) by blast
  then show ?case
    unfolding chain_slots_Internal_Cons map_append .
qed

lemma chain_slots_sorted:
  "bp_sorted t \<Longrightarrow> sorted_wrt (<) (map fst (chain_slots t))"
proof (induction t rule: bp_sorted.induct)
  case (1 kes)
  then show ?case by simp
next
  case (2 c0 kcs)
  show ?case
  proof (rule concat_slots_sorted)
    show "\<forall>kc\<in>set kcs. sorted_wrt (<) (map fst (chain_slots (snd kc)))"
      using 2 by simp
    show "sorted_wrt (<) (map fst (chain_slots c0))" using 2 by simp
    show "seps_ok c0 kcs" using 2(3) by simp
    show "sorted_wrt (<) (map fst kcs)" using 2(3) by simp
  qed
qed

lemma chain_slots_ekey:
  "bp_sorted t \<Longrightarrow> \<forall>ke\<in>set (chain_slots t). ekey (snd ke) = fst ke"
proof (induction t rule: bp_sorted.induct)
  case (1 kes)
  then show ?case by simp
next
  case (2 c0 kcs)
  then show ?case by auto
qed

section \<open>Leaves\<close>

lemma leaf_pos_split:
  assumes "sorted_wrt (<) (map fst kes)"
  shows "leaf_find_pos (Leaf kes) k \<le> length kes \<and>
         (\<forall>a\<in>set (take (leaf_find_pos (Leaf kes) k) kes). fst a < k) \<and>
         (\<forall>c\<in>set (drop (leaf_find_pos (Leaf kes) k) kes). k \<le> fst c)"
proof -
  have "sorted_wrt (<) (keys (Leaf kes))" using assms by simp
  from leaf_find_pos_spec [OF this, of k]
  show ?thesis by (simp add: num_keys_def take_map drop_map)
qed

lemma leaf_slot_put:
  assumes "sorted_wrt (<) (map fst kes)"
  shows "slot_put k e kes =
     (let pos = leaf_find_pos (Leaf kes) k
      in if pos < length kes \<and> fst (kes ! pos) = k
         then kes[pos := (fst (kes ! pos),
                          if edeleted (snd (kes ! pos)) then e
                          else (snd (kes ! pos))\<lparr>evalue := evalue e\<rparr>)]
         else take pos kes @ [(k, e)] @ drop pos kes)"
proof -
  define pos where "pos = leaf_find_pos (Leaf kes) k"
  have p: "pos \<le> length kes" "\<forall>a\<in>set (take pos kes). fst a < k"
    "\<forall>c\<in>set (drop pos kes). k \<le> fst c"
    using leaf_pos_split [OF assms, of k] by (simp_all add: pos_def)
  have "slot_put k e kes = slot_put k e (take pos kes @ drop pos kes)" by simp
  also have "\<dots> = take pos kes @ slot_put k e (drop pos kes)"
    using p(2) by (rule slot_put_append_left)
  finally have sp: "slot_put k e kes = take pos kes @ slot_put k e (drop pos kes)" .
  show ?thesis
  proof (cases "pos < length kes")
    case False
    then have "drop pos kes = []" by simp
    then show ?thesis using sp False by (simp add: pos_def [symmetric] Let_def)
  next
    case True
    then have d: "drop pos kes = kes ! pos # drop (Suc pos) kes"
      by (simp add: Cons_nth_drop_Suc)
    have ge: "k \<le> fst (kes ! pos)" using p(3) d by simp
    show ?thesis
    proof (cases "fst (kes ! pos) = k")
      case True
      then show ?thesis
        using sp d \<open>pos < length kes\<close>
        by (simp add: pos_def [symmetric] Let_def upd_conv_take_nth_drop)
    next
      case False
      then have "\<not> fst (kes ! pos) < k" using ge by simp
      then show ?thesis
        using sp d False by (simp add: pos_def [symmetric] Let_def)
    qed
  qed
qed

lemma slot_put_sorted:
  "sorted_wrt (<) (map fst xs) \<Longrightarrow> sorted_wrt (<) (map fst (slot_put k e xs))"
proof (induction xs)
  case Nil
  then show ?case by simp
next
  case (Cons a xs)
  then show ?case by (auto simp: slot_put_keys)
qed

lemma slot_put_ekey:
  "ekey e = k \<Longrightarrow> \<forall>ke\<in>set xs. ekey (snd ke) = fst ke \<Longrightarrow>
     \<forall>ke\<in>set (slot_put k e xs). ekey (snd ke) = fst ke"
  by (induction xs) auto

lemma insert_leaf_result:
  assumes "sorted_wrt (<) (map fst kes)" and "ekey entry = k"
  shows "insert_recursive (Leaf kes) k entry =
     (if k \<in> fst ` set kes then
        (if \<exists>e'. (k, e') \<in> set kes \<and> \<not> edeleted e' then 0 else 1,
         NoSplit (Leaf (slot_put k entry kes)))
      else
        (1, if length (slot_put k entry kes) \<ge> ORDER - 1
            then split_leaf (Leaf (slot_put k entry kes))
            else NoSplit (Leaf (slot_put k entry kes))))"
proof -
  define pos where "pos = leaf_find_pos (Leaf kes) k"
  have p: "pos \<le> length kes" "\<forall>a\<in>set (take pos kes). fst a < k"
    "\<forall>c\<in>set (drop pos kes). k \<le> fst c"
    using leaf_pos_split [OF assms(1), of k] by (simp_all add: pos_def)
  have sp: "slot_put k entry kes =
     (if pos < length kes \<and> fst (kes ! pos) = k
         then kes[pos := (fst (kes ! pos),
                          if edeleted (snd (kes ! pos)) then entry
                          else (snd (kes ! pos))\<lparr>evalue := evalue entry\<rparr>)]
         else take pos kes @ [(k, entry)] @ drop pos kes)"
    using leaf_slot_put [OF assms(1), of k entry] by (simp add: pos_def Let_def)
  have tk: "take (length k) (ekey entry) = k" using assms(2) by simp
  have c: "(pos < num_keys (Leaf kes) \<and> keycmp (keys (Leaf kes) ! pos) k = 0) =
           (pos < length kes \<and> fst (kes ! pos) = k)"
    by (auto simp: num_keys_def)
  have ir: "insert_recursive (Leaf kes) k entry =
     (if pos < length kes \<and> fst (kes ! pos) = k then
        (if \<not> edeleted (snd (kes ! pos))
         then (0, NoSplit (Leaf (kes[pos := (fst (kes ! pos),
                                  (snd (kes ! pos))\<lparr>evalue := evalue entry\<rparr>)])))
         else (1, NoSplit (Leaf (kes[pos := (fst (kes ! pos), entry)]))))
      else
        (if length (take pos kes @ [(k, entry)] @ drop pos kes) \<ge> ORDER - 1
         then (1, split_leaf (Leaf (take pos kes @ [(k, entry)] @ drop pos kes)))
         else (1, NoSplit (Leaf (take pos kes @ [(k, entry)] @ drop pos kes)))))"
    by (simp only: insert_recursive.simps Let_def pos_def [symmetric] c)
       (simp add: num_keys_def tk cong: if_cong)
  show ?thesis
  proof (cases "pos < length kes \<and> fst (kes ! pos) = k")
    case True
    then have mem: "kes ! pos \<in> set kes" by simp
    then have in_keys: "k \<in> fst ` set kes" using True by force
    have dist: "distinct (map fst kes)"
      using assms(1) strict_sorted_iff by blast
    have uniq: "e' = snd (kes ! pos)" if h: "(k, e') \<in> set kes" for e'
    proof -
      obtain j where j: "j < length kes" "kes ! j = (k, e')"
        using h unfolding in_set_conv_nth by blast
      have "map fst kes ! j = map fst kes ! pos" using j True by simp
      moreover have "j < length (map fst kes)" "pos < length (map fst kes)"
        using j(1) True by simp_all
      ultimately have "j = pos"
        using dist nth_eq_iff_index_eq by blast
      then show ?thesis using j by simp
    qed
    have "(k, snd (kes ! pos)) \<in> set kes" using mem True by (metis prod.collapse)
    then have live: "(\<exists>e'. (k, e') \<in> set kes \<and> \<not> edeleted e') \<longleftrightarrow> \<not> edeleted (snd (kes ! pos))"
      using uniq by blast
    have nt: "(pos < length kes \<and> fst (kes ! pos) = k) = True"
      using True by simp
    have "insert_recursive (Leaf kes) k entry =
        (if \<not> edeleted (snd (kes ! pos)) then 0 else 1, NoSplit (Leaf (slot_put k entry kes)))"
      unfolding ir sp nt if_True by simp
    then show ?thesis using in_keys live by simp
  next
    case False
    have "k \<notin> fst ` set kes"
    proof
      assume "k \<in> fst ` set kes"
      then obtain ke where ke: "ke \<in> set kes" "fst ke = k" by auto
      have "set kes = set (take pos kes) \<union> set (drop pos kes)"
        by (metis append_take_drop_id set_append)
      then have kd: "ke \<in> set (drop pos kes)" using ke p(2) by auto
      then have ne: "drop pos kes \<noteq> []" by auto
      then have lt: "pos < length kes" by simp
      then have d: "drop pos kes = kes ! pos # drop (Suc pos) kes"
        by (simp add: Cons_nth_drop_Suc)
      have "sorted_wrt (<) (map fst (drop pos kes))"
        using assms(1) by (simp add: drop_map [symmetric] sorted_wrt_drop)
      then have "\<forall>x\<in>set (drop (Suc pos) kes). fst (kes ! pos) < fst x"
        unfolding d by simp
      moreover have "k \<le> fst (kes ! pos)" using p(3) d by simp
      ultimately have "ke = kes ! pos"
        using kd ke(2) unfolding d by auto
      then show False using False lt ke(2) by simp
    qed
    moreover have nf: "(pos < length kes \<and> fst (kes ! pos) = k) = False"
      using False by simp
    have "insert_recursive (Leaf kes) k entry =
        (1, if length (slot_put k entry kes) \<ge> ORDER - 1
            then split_leaf (Leaf (slot_put k entry kes))
            else NoSplit (Leaf (slot_put k entry kes)))"
      unfolding ir sp nf if_False by simp
    ultimately show ?thesis by simp
  qed
qed

section \<open>Internal nodes\<close>

lemma tree_keys_split:
  "tree_keys (Internal c0 (A @ (kp, c) # B)) =
     tree_keys (Internal c0 A) \<union> {kp} \<union> tree_keys (Internal c B)"
  by (simp add: Un_ac image_Un)

lemma chain_slots_split:
  "chain_slots (Internal c0 (A @ (kp, c) # B)) =
     chain_slots (Internal c0 A) @ chain_slots (Internal c B)"
  by simp

lemma last_child_keys:
  "tree_keys (last (c0 # map snd A)) \<subseteq> tree_keys (Internal c0 A)"
proof (cases A rule: rev_cases)
  case Nil
  then show ?thesis by simp
next
  case (snoc A' a)
  then show ?thesis by auto
qed

lemma bp_sorted_split_iff:
  "bp_sorted (Internal c0 (A @ (kp, c) # B)) \<longleftrightarrow>
     bp_sorted (Internal c0 A) \<and> bp_sorted (Internal c B) \<and>
     (\<forall>x\<in>tree_keys (Internal c0 A). x < kp) \<and>
     (\<forall>x\<in>tree_keys (Internal c B). kp \<le> x) \<and>
     (\<forall>kc\<in>set B. kp < fst kc)"
proof
  assume l: "bp_sorted (Internal c0 (A @ (kp, c) # B))"
  have so: "sorted_wrt (<) (map fst A @ kp # map fst B)" using l by simp
  have se: "seps_ok c0 A" "\<forall>x\<in>tree_keys (last (c0 # map snd A)). x < kp"
    "\<forall>x\<in>tree_keys c. kp \<le> x" "seps_ok c B"
    using l by (simp_all add: seps_ok_append)
  have ch: "bp_sorted c0" "\<forall>kc\<in>set A. bp_sorted (snd kc)" "bp_sorted c"
    "\<forall>kc\<in>set B. bp_sorted (snd kc)"
    using l by simp_all
  have sa: "sorted_wrt (<) (map fst A)" and sb: "sorted_wrt (<) (map fst B)"
    and kb: "\<forall>kc\<in>set B. kp < fst kc"
    using so by (auto simp: sorted_wrt_append)
  have "seps_ok c0 (A @ [(kp, c)])" using se by (simp add: seps_ok_append)
  moreover have "sorted_wrt (<) (map fst A @ [kp])" using so by (auto simp: sorted_wrt_append)
  ultimately have below: "\<forall>x\<in>tree_keys (Internal c0 A). x < kp"
    by (rule keys_below_sep)
  have "\<forall>kc\<in>set B. kp \<le> fst kc" using kb by (simp add: less_imp_le)
  then have above: "\<forall>x\<in>tree_keys (Internal c B). kp \<le> x"
    using se(4) se(3) by (intro keys_above_sep)
  show "bp_sorted (Internal c0 A) \<and> bp_sorted (Internal c B) \<and>
     (\<forall>x\<in>tree_keys (Internal c0 A). x < kp) \<and>
     (\<forall>x\<in>tree_keys (Internal c B). kp \<le> x) \<and>
     (\<forall>kc\<in>set B. kp < fst kc)"
    using sa sb se ch below above kb by simp
next
  assume r: "bp_sorted (Internal c0 A) \<and> bp_sorted (Internal c B) \<and>
     (\<forall>x\<in>tree_keys (Internal c0 A). x < kp) \<and>
     (\<forall>x\<in>tree_keys (Internal c B). kp \<le> x) \<and>
     (\<forall>kc\<in>set B. kp < fst kc)"
  have sa: "sorted_wrt (<) (map fst A)" and sb: "sorted_wrt (<) (map fst B)"
    using r by simp_all
  have ak: "\<forall>x\<in>set (map fst A). x < kp" using r by simp
  have kb: "\<forall>y\<in>set (map fst B). kp < y" using r by simp
  have "\<forall>x\<in>set (map fst A). \<forall>y\<in>set (kp # map fst B). x < y"
    using ak kb by (metis less_trans set_ConsD)
  then have so: "sorted_wrt (<) (map fst (A @ (kp, c) # B))"
    using sa sb kb by (simp add: sorted_wrt_append)
  have "\<forall>x\<in>tree_keys (last (c0 # map snd A)). x < kp"
    using r last_child_keys [of c0 A] by blast
  moreover have "\<forall>x\<in>tree_keys c. kp \<le> x" using r by simp
  ultimately have se: "seps_ok c0 (A @ (kp, c) # B)"
    using r by (simp add: seps_ok_append)
  have ch: "bp_sorted c0" "bp_sorted c" "\<forall>kc\<in>set A \<union> set B. bp_sorted (snd kc)"
    using r by auto
  show "bp_sorted (Internal c0 (A @ (kp, c) # B))" using so se ch by simp
qed

lemma first_child_below:
  assumes "bp_sorted (Internal c0 B)" "x \<in> tree_keys c0" "kc \<in> set B"
  shows "x < fst kc"
proof (cases B)
  case Nil
  then show ?thesis using assms by simp
next
  case (Cons b B')
  have "x < fst b" using assms Cons by simp
  moreover have "kc = b \<or> fst b < fst kc" using assms Cons by auto
  ultimately show ?thesis by auto
qed

lemma replace_first_child:
  assumes "bp_sorted (Internal c0 B)" "bp_sorted c'"
    and "tree_keys c' \<subseteq> insert k (tree_keys c0)" and "\<forall>kc\<in>set B. k < fst kc"
  shows "bp_sorted (Internal c' B)"
proof (cases B)
  case Nil
  then show ?thesis using assms by simp
next
  case (Cons b B')
  have "\<forall>x\<in>tree_keys c0. x < fst b" using assms(1) Cons by simp
  moreover have "k < fst b" using assms(4) Cons by simp
  ultimately have "\<forall>x\<in>tree_keys c'. x < fst b" using assms(3) by blast
  then show ?thesis using assms(1,2) Cons by simp
qed

lemma split_first_child:
  assumes "bp_sorted (Internal c0 B)" "res_sorted (Split l u r)"
    and "res_keys (Split l u r) \<subseteq> insert k (tree_keys c0)" and "\<forall>kc\<in>set B. k < fst kc"
  shows "bp_sorted (Internal l ((u, r) # B))"
proof -
  have u: "u = k \<or> u \<in> tree_keys c0" using assms(3) by auto
  have ub: "\<forall>kc\<in>set B. u < fst kc"
    using u assms(4) first_child_below [OF assms(1)] by blast
  have rk: "tree_keys r \<subseteq> insert k (tree_keys c0)" using assms(3) by auto
  have sr: "bp_sorted (Internal r B)"
    using assms(1) _ rk assms(4) by (rule replace_first_child) (use assms(2) in simp)
  have "\<forall>kc\<in>set B. u \<le> fst kc" using ub by (simp add: less_imp_le)
  moreover have "seps_ok r B" using sr by simp
  moreover have "\<forall>x\<in>tree_keys r. u \<le> x" using assms(2) by simp
  ultimately have ab: "\<forall>x\<in>tree_keys (Internal r B). u \<le> x"
    by (intro keys_above_sep)
  have "bp_sorted (Internal l ([] @ (u, r) # B))"
    unfolding bp_sorted_split_iff using sr ab ub assms(2) by simp
  then show ?thesis by simp
qed

lemma split_internal_sorted:
  assumes "bp_sorted (Internal c0 Z)" "2 \<le> length Z"
  shows "res_sorted (split_internal (Internal c0 Z)) \<and>
         res_keys (split_internal (Internal c0 Z)) = tree_keys (Internal c0 Z) \<and>
         res_slots (split_internal (Internal c0 Z)) = chain_slots (Internal c0 Z)"
proof -
  define mid where "mid = length Z div 2"
  have m: "1 \<le> mid" "mid < length Z" using assms(2) by (auto simp: mid_def)
  define A where "A = take mid Z"
  define B where "B = drop (Suc mid) Z"
  define u where "u = fst (Z ! mid)"
  define c where "c = snd (Z ! mid)"
  have z: "Z = A @ (u, c) # B"
    using m by (simp add: A_def B_def u_def c_def id_take_nth_drop)
  have an: "A \<noteq> []" using m by (auto simp: A_def)
  have sp: "split_internal (Internal c0 Z) = Split (Internal c0 A) u (Internal c B)"
    by (simp add: Let_def mid_def A_def B_def u_def c_def)
  have s: "bp_sorted (Internal c0 A) \<and> bp_sorted (Internal c B) \<and>
     (\<forall>x\<in>tree_keys (Internal c0 A). x < u) \<and>
     (\<forall>x\<in>tree_keys (Internal c B). u \<le> x)"
    using assms(1) unfolding z bp_sorted_split_iff by blast
  have ne: "tree_keys (Internal c0 A) \<noteq> {}" using an by (cases A) auto
  show ?thesis
    unfolding sp res_sorted.simps res_keys.simps res_slots.simps
    using s ne by (simp only: z tree_keys_split chain_slots_split) simp
qed

lemma split_leaf_sorted:
  assumes "bp_sorted (Leaf X)" "2 \<le> length X"
  shows "res_sorted (split_leaf (Leaf X)) \<and>
         res_keys (split_leaf (Leaf X)) = tree_keys (Leaf X) \<and>
         res_slots (split_leaf (Leaf X)) = X"
proof -
  define mid where "mid = length X div 2"
  have m: "1 \<le> mid" "mid < length X" using assms(2) by (auto simp: mid_def)
  have d: "drop mid X = X ! mid # drop (Suc mid) X"
    using m by (simp add: Cons_nth_drop_Suc)
  have sp: "split_leaf (Leaf X) = Split (Leaf (take mid X)) (fst (X ! mid)) (Leaf (drop mid X))"
    using m by (simp add: split_leaf_def Let_def mid_def num_keys_def)
  have x: "X = take mid X @ drop mid X" by simp
  have so: "sorted_wrt (<) (map fst (take mid X) @ map fst (drop mid X))"
    using assms(1) by (simp add: map_append [symmetric])
  have st: "sorted_wrt (<) (map fst (take mid X))" and sd: "sorted_wrt (<) (map fst (drop mid X))"
    and cross: "\<forall>a\<in>set (take mid X). \<forall>b\<in>set (drop mid X). fst a < fst b"
    using so unfolding sorted_wrt_append by auto
  have "X ! mid \<in> set (drop mid X)" unfolding d by simp
  then have lo: "\<forall>a\<in>set (take mid X). fst a < fst (X ! mid)" using cross by blast
  have hi: "\<forall>b\<in>set (drop mid X). fst (X ! mid) \<le> fst b"
    using sd unfolding d by auto
  have ek: "\<forall>ke\<in>set (take mid X). ekey (snd ke) = fst ke"
    "\<forall>ke\<in>set (drop mid X). ekey (snd ke) = fst ke"
    using assms(1) by (auto dest: in_set_takeD in_set_dropD)
  have ne: "take mid X \<noteq> []" using m by auto
  have ks: "fst ` set (take mid X) \<union> {fst (X ! mid)} \<union> fst ` set (drop mid X) = fst ` set X"
  proof -
    have "set X = set (take mid X) \<union> set (drop mid X)"
      by (metis append_take_drop_id set_append)
    moreover have "X ! mid \<in> set (drop mid X)" unfolding d by simp
    ultimately show ?thesis by auto
  qed
  show ?thesis
    unfolding sp using st sd lo hi ek ne ks by simp
qed

lemma seps_ok_child_ge:
  "seps_ok c B \<Longrightarrow> kc \<in> set B \<Longrightarrow> x \<in> tree_keys (snd kc) \<Longrightarrow> fst kc \<le> x"
  by (induction B arbitrary: c) auto

lemma post_slots_above:
  assumes "seps_ok c B" "\<forall>kc\<in>set B. k < fst kc"
  shows "\<forall>s\<in>set (concat (map (\<lambda>kc. chain_slots (snd kc)) B)). k < fst s"
proof
  fix s assume "s \<in> set (concat (map (\<lambda>kc. chain_slots (snd kc)) B))"
  then obtain kc where kc: "kc \<in> set B" "s \<in> set (chain_slots (snd kc))" by auto
  then have "fst s \<in> tree_keys (snd kc)" using slots_keys_subset [of "snd kc"] by auto
  then have "fst kc \<le> fst s" using seps_ok_child_ge [OF assms(1) kc(1)] by simp
  moreover have "k < fst kc" using assms(2) kc(1) by simp
  ultimately show "k < fst s" by simp
qed

lemma tree_keys_first_subset:
  "tree_keys (Internal c' B) \<subseteq> tree_keys c' \<union> tree_keys (Internal c B)"
  by auto

lemma tree_keys_first_mono:
  "tree_keys c' \<subseteq> insert k (tree_keys c) \<Longrightarrow>
     tree_keys (Internal c' B) \<subseteq> insert k (tree_keys (Internal c B))"
  by auto

lemma tree_keys_split_first_mono:
  "res_keys (Split l u r) \<subseteq> insert k (tree_keys c) \<Longrightarrow>
     tree_keys (Internal l ((u, r) # B)) \<subseteq> insert k (tree_keys (Internal c B))"
  by auto

text \<open>The child in first position: \<open>Internal c0 B\<close> with the key below all separators.\<close>

lemma first_ctx_slots:
  assumes "bp_sorted (Internal c0 B)" "\<forall>kc\<in>set B. k < fst kc"
    and "S = slot_put k e (chain_slots c0)"
  shows "S @ concat (map (\<lambda>kc. chain_slots (snd kc)) B) = slot_put k e (chain_slots (Internal c0 B))"
proof -
  have "seps_ok c0 B" using assms(1) by simp
  then have "\<forall>s\<in>set (concat (map (\<lambda>kc. chain_slots (snd kc)) B)). k < fst s"
    using assms(2) by (rule post_slots_above)
  then show ?thesis
    unfolding assms(3) chain_slots_Internal by (rule slot_put_append_right [symmetric])
qed

text \<open>The child in a later position: \<open>Internal c0 (A @ (kp, cp) # B)\<close> with
  \<open>kp \<le> k\<close> and \<open>k\<close> below the separators of \<open>B\<close>.\<close>

lemma mid_ctx_parts:
  assumes "bp_sorted (Internal c0 (A @ (kp, cp) # B))"
  shows "bp_sorted (Internal c0 A)" "bp_sorted (Internal cp B)"
    "\<forall>x\<in>tree_keys (Internal c0 A). x < kp" "\<forall>x\<in>tree_keys (Internal cp B). kp \<le> x"
    "\<forall>kc\<in>set B. kp < fst kc"
  using assms unfolding bp_sorted_split_iff by blast+

lemma mid_ctx_replace:
  assumes "bp_sorted (Internal c0 (A @ (kp, cp) # B))" "kp \<le> k" "\<forall>kc\<in>set B. k < fst kc"
    and "bp_sorted c'" "tree_keys c' \<subseteq> insert k (tree_keys cp)"
  shows "bp_sorted (Internal c0 (A @ (kp, c') # B))"
proof -
  note p = mid_ctx_parts [OF assms(1)]
  have s: "bp_sorted (Internal c' B)"
    using p(2) assms(4,5,3) by (rule replace_first_child)
  have "tree_keys (Internal c' B) \<subseteq> insert k (tree_keys (Internal cp B))"
    using assms(5) by (rule tree_keys_first_mono)
  then have "\<forall>x\<in>tree_keys (Internal c' B). kp \<le> x"
    using p(4) assms(2) by blast
  then show ?thesis
    unfolding bp_sorted_split_iff using p(1,3,5) s by blast
qed

lemma mid_ctx_split:
  assumes "bp_sorted (Internal c0 (A @ (kp, cp) # B))" "kp \<le> k" "\<forall>kc\<in>set B. k < fst kc"
    and "res_sorted (Split l u r)" "res_keys (Split l u r) \<subseteq> insert k (tree_keys cp)"
  shows "bp_sorted (Internal c0 (A @ (kp, l) # (u, r) # B))"
proof -
  note p = mid_ctx_parts [OF assms(1)]
  have s: "bp_sorted (Internal l ((u, r) # B))"
    using p(2) assms(4,5,3) by (rule split_first_child)
  have "tree_keys (Internal l ((u, r) # B)) \<subseteq> insert k (tree_keys (Internal cp B))"
    using assms(5) by (rule tree_keys_split_first_mono)
  then have ge: "\<forall>x\<in>tree_keys (Internal l ((u, r) # B)). kp \<le> x"
    using p(4) assms(2) by blast
  obtain x where x: "x \<in> tree_keys l" using assms(4) by auto
  have "kp \<le> x" using ge x by simp
  moreover have "x < u" using assms(4) x by simp
  ultimately have "kp < u" by simp
  then have "\<forall>kc\<in>set ((u, r) # B). kp < fst kc" using p(5) by simp
  then show ?thesis
    unfolding bp_sorted_split_iff using p(1,3) s ge by blast
qed

lemma mid_ctx_slots:
  assumes "bp_sorted (Internal c0 (A @ (kp, cp) # B))" "kp \<le> k" "\<forall>kc\<in>set B. k < fst kc"
    and "S = slot_put k e (chain_slots cp)"
  shows "chain_slots (Internal c0 A) @ S @ concat (map (\<lambda>kc. chain_slots (snd kc)) B) =
         slot_put k e (chain_slots (Internal c0 (A @ (kp, cp) # B)))"
proof -
  note p = mid_ctx_parts [OF assms(1)]
  have "\<forall>a\<in>set (chain_slots (Internal c0 A)). fst a < kp"
    using p(3) slots_keys_subset [of "Internal c0 A"] by blast
  then have pre: "\<forall>a\<in>set (chain_slots (Internal c0 A)). fst a < k"
    using assms(2) by (meson less_le_trans)
  have "S @ concat (map (\<lambda>kc. chain_slots (snd kc)) B) = slot_put k e (chain_slots (Internal cp B))"
    using p(2) assms(3,4) by (rule first_ctx_slots)
  then have "chain_slots (Internal c0 A) @ S @ concat (map (\<lambda>kc. chain_slots (snd kc)) B) =
     chain_slots (Internal c0 A) @ slot_put k e (chain_slots (Internal cp B))"
    by simp
  also have "\<dots> = slot_put k e (chain_slots (Internal c0 A) @ chain_slots (Internal cp B))"
    using pre by (rule slot_put_append_left [symmetric])
  finally show ?thesis unfolding chain_slots_split .
qed

text \<open>Position \<open>internal_find_pos\<close> in list form.\<close>

lemma internal_pos_zero:
  assumes "sorted_wrt (<) (map fst kcs)" "internal_find_pos (Internal c0 kcs) k = 0"
  shows "\<forall>kc\<in>set kcs. k < fst kc"
  using internal_find_pos_spec [of "Internal c0 kcs" k] assms by simp

lemma internal_pos_Suc:
  assumes "sorted_wrt (<) (map fst kcs)" "internal_find_pos (Internal c0 kcs) k = Suc j"
  shows "j < length kcs" "fst (kcs ! j) \<le> k" "\<forall>kc\<in>set (drop (Suc j) kcs). k < fst kc"
    "kcs = take j kcs @ (fst (kcs ! j), snd (kcs ! j)) # drop (Suc j) kcs"
proof -
  have s: "Suc j \<le> length kcs" "\<forall>x\<in>set (take (Suc j) (map fst kcs)). x \<le> k"
    "\<forall>x\<in>set (drop (Suc j) (map fst kcs)). k < x"
    using internal_find_pos_spec [of "Internal c0 kcs" k] assms by (simp_all add: num_keys_def)
  show j: "j < length kcs" using s(1) by simp
  have "map fst kcs ! j \<in> set (take (Suc j) (map fst kcs))"
    using j by (simp add: take_Suc_conv_app_nth)
  then show "fst (kcs ! j) \<le> k" using s(2) j by auto
  show "\<forall>kc\<in>set (drop (Suc j) kcs). k < fst kc" using s(3) by (simp add: drop_map)
  show "kcs = take j kcs @ (fst (kcs ! j), snd (kcs ! j)) # drop (Suc j) kcs"
    using j by (simp add: id_take_nth_drop [symmetric])
qed

lemma set_child_Suc:
  assumes "j < length kcs"
  shows "set_child (Internal c0 kcs) (Suc j) c' =
           Internal c0 (take j kcs @ (fst (kcs ! j), c') # drop (Suc j) kcs)"
  using assms by (simp add: upd_conv_take_nth_drop)

lemma parent_insert_Suc:
  assumes "j < length kcs"
  shows "parent_insert (Internal c0 kcs) (Suc j) l u r =
           Internal c0 (take j kcs @ (fst (kcs ! j), l) # (u, r) # drop (Suc j) kcs)"
proof -
  define L where "L = take (Suc j) kcs @ (u, r) # drop (Suc j) kcs"
  have t: "take (Suc j) kcs = take j kcs @ [kcs ! j]"
    using assms by (rule take_Suc_conv_app_nth)
  have l: "L = take j kcs @ kcs ! j # (u, r) # drop (Suc j) kcs"
    by (simp add: L_def t)
  have lj: "length (take j kcs) = j" using assms by simp
  have nj: "L ! j = kcs ! j" unfolding l using lj by (metis nth_append_length)
  have u: "L[j := (fst (kcs ! j), l)] = take j kcs @ (fst (kcs ! j), l) # (u, r) # drop (Suc j) kcs"
    unfolding l using lj by (metis list_update_length)
  have "parent_insert (Internal c0 kcs) (Suc j) l u r = Internal c0 (L[j := (fst (L ! j), l)])"
    by (simp add: L_def)
  then show ?thesis
    unfolding nj u .
qed

section \<open>Insertion\<close>

lemma internal_step:
  assumes S: "bp_sorted (Internal c0 kcs)"
    and pos: "pos = internal_find_pos (Internal c0 kcs) k"
    and rs: "res_sorted r"
    and rk: "res_keys r \<subseteq> insert k (tree_keys (children (Internal c0 kcs) ! pos))"
    and rl: "res_slots r = slot_put k e (chain_slots (children (Internal c0 kcs) ! pos))"
    and n: "node' = (case r of NoSplit c' \<Rightarrow> set_child (Internal c0 kcs) pos c'
                     | Split l u rr \<Rightarrow> parent_insert (Internal c0 kcs) pos l u rr)"
  shows "bp_sorted node' \<and> tree_keys node' \<subseteq> insert k (tree_keys (Internal c0 kcs)) \<and>
         chain_slots node' = slot_put k e (chain_slots (Internal c0 kcs)) \<and> \<not> is_leaf node'"
proof (cases pos)
  case 0
  have so: "sorted_wrt (<) (map fst kcs)" using S by simp
  have kb: "\<forall>kc\<in>set kcs. k < fst kc"
    using so pos 0 by (intro internal_pos_zero [of kcs c0 k]) simp_all
  have ch: "children (Internal c0 kcs) ! pos = c0" using 0 by simp
  show ?thesis
  proof (cases r)
    case (NoSplit c')
    have n': "node' = Internal c' kcs" using n NoSplit 0 by simp
    have k': "tree_keys c' \<subseteq> insert k (tree_keys c0)" using rk NoSplit ch by simp
    have "bp_sorted c'" using rs NoSplit by simp
    then have 1: "bp_sorted (Internal c' kcs)"
      using S k' kb by (intro replace_first_child [of c0 kcs c' k])
    have 2: "tree_keys (Internal c' kcs) \<subseteq> insert k (tree_keys (Internal c0 kcs))"
      using k' by (rule tree_keys_first_mono)
    have "chain_slots c' = slot_put k e (chain_slots c0)" using rl NoSplit ch by simp
    then have "chain_slots c' @ concat (map (\<lambda>kc. chain_slots (snd kc)) kcs) =
         slot_put k e (chain_slots (Internal c0 kcs))"
      using S kb by (intro first_ctx_slots)
    then have 3: "chain_slots (Internal c' kcs) = slot_put k e (chain_slots (Internal c0 kcs))"
      by simp
    show ?thesis unfolding n' using 1 2 3 by simp
  next
    case (Split l u rr)
    have n': "node' = Internal l ((u, rr) # kcs)" using n Split 0 by simp
    have rs': "res_sorted (Split l u rr)" using rs Split by simp
    have k': "res_keys (Split l u rr) \<subseteq> insert k (tree_keys c0)" using rk Split ch by simp
    have 1: "bp_sorted (Internal l ((u, rr) # kcs))"
      using S rs' k' kb by (rule split_first_child)
    have 2: "tree_keys (Internal l ((u, rr) # kcs)) \<subseteq> insert k (tree_keys (Internal c0 kcs))"
      using k' by (rule tree_keys_split_first_mono)
    have "chain_slots l @ chain_slots rr = slot_put k e (chain_slots c0)"
      using rl Split ch by simp
    then have "(chain_slots l @ chain_slots rr) @ concat (map (\<lambda>kc. chain_slots (snd kc)) kcs) =
         slot_put k e (chain_slots (Internal c0 kcs))"
      using S kb by (intro first_ctx_slots)
    then have 3: "chain_slots (Internal l ((u, rr) # kcs)) = slot_put k e (chain_slots (Internal c0 kcs))"
      by simp
    show ?thesis unfolding n' using 1 2 3 by simp
  qed
next
  case (Suc j)
  have so: "sorted_wrt (<) (map fst kcs)" using S by simp
  have ps: "internal_find_pos (Internal c0 kcs) k = Suc j" using pos Suc by simp
  note f = internal_pos_Suc [OF so ps]
  define A where "A = take j kcs"
  define B where "B = drop (Suc j) kcs"
  define kp where "kp = fst (kcs ! j)"
  define cp where "cp = snd (kcs ! j)"
  have dec: "kcs = A @ (kp, cp) # B" using f(4) by (simp add: A_def B_def kp_def cp_def)
  have kpk: "kp \<le> k" using f(2) by (simp add: kp_def)
  have kb: "\<forall>kc\<in>set B. k < fst kc" using f(3) by (simp add: B_def)
  have S': "bp_sorted (Internal c0 (A @ (kp, cp) # B))" using S unfolding dec .
  have ch: "children (Internal c0 kcs) ! pos = cp" using Suc f(1) by (simp add: cp_def)
  have tk: "tree_keys (Internal c0 kcs) =
      tree_keys (Internal c0 A) \<union> {kp} \<union> tree_keys (Internal cp B)"
    unfolding dec by (rule tree_keys_split)
  show ?thesis
  proof (cases r)
    case (NoSplit c')
    have n': "node' = Internal c0 (A @ (kp, c') # B)"
      using n NoSplit Suc set_child_Suc [OF f(1), of c0 c']
      by (simp add: A_def B_def kp_def)
    have k': "tree_keys c' \<subseteq> insert k (tree_keys cp)" using rk NoSplit ch by simp
    have "bp_sorted c'" using rs NoSplit by simp
    then have 1: "bp_sorted (Internal c0 (A @ (kp, c') # B))"
      using S' kpk kb k' by (intro mid_ctx_replace [of c0 A kp cp B k c'])
    have "tree_keys (Internal c' B) \<subseteq> insert k (tree_keys (Internal cp B))"
      using k' by (rule tree_keys_first_mono)
    then have 2: "tree_keys (Internal c0 (A @ (kp, c') # B)) \<subseteq> insert k (tree_keys (Internal c0 kcs))"
      unfolding tk tree_keys_split by blast
    have "chain_slots c' = slot_put k e (chain_slots cp)" using rl NoSplit ch by simp
    then have "chain_slots (Internal c0 A) @ chain_slots c' @ concat (map (\<lambda>kc. chain_slots (snd kc)) B) =
         slot_put k e (chain_slots (Internal c0 (A @ (kp, cp) # B)))"
      using S' kpk kb by (intro mid_ctx_slots)
    then have 3: "chain_slots (Internal c0 (A @ (kp, c') # B)) = slot_put k e (chain_slots (Internal c0 kcs))"
      unfolding dec [symmetric] chain_slots_split by simp
    show ?thesis unfolding n' using 1 2 3 by simp
  next
    case (Split l u rr)
    have n': "node' = Internal c0 (A @ (kp, l) # (u, rr) # B)"
      using n Split Suc parent_insert_Suc [OF f(1), of c0 l u rr]
      by (simp add: A_def B_def kp_def)
    have rs': "res_sorted (Split l u rr)" using rs Split by simp
    have k': "res_keys (Split l u rr) \<subseteq> insert k (tree_keys cp)" using rk Split ch by simp
    have 1: "bp_sorted (Internal c0 (A @ (kp, l) # (u, rr) # B))"
      using S' kpk kb rs' k' by (rule mid_ctx_split)
    have "tree_keys (Internal l ((u, rr) # B)) \<subseteq> insert k (tree_keys (Internal cp B))"
      using k' by (rule tree_keys_split_first_mono)
    then have 2: "tree_keys (Internal c0 (A @ (kp, l) # (u, rr) # B)) \<subseteq> insert k (tree_keys (Internal c0 kcs))"
      unfolding tk tree_keys_split by blast
    have "chain_slots l @ chain_slots rr = slot_put k e (chain_slots cp)"
      using rl Split ch by simp
    then have "chain_slots (Internal c0 A) @ (chain_slots l @ chain_slots rr) @ concat (map (\<lambda>kc. chain_slots (snd kc)) B) =
         slot_put k e (chain_slots (Internal c0 (A @ (kp, cp) # B)))"
      using S' kpk kb by (intro mid_ctx_slots)
    then have 3: "chain_slots (Internal c0 (A @ (kp, l) # (u, rr) # B)) = slot_put k e (chain_slots (Internal c0 kcs))"
      unfolding dec [symmetric] chain_slots_split by simp
    show ?thesis unfolding n' using 1 2 3 by simp
  qed
qed

lemma internal_child_sorted:
  assumes "bp_sorted (Internal c0 kcs)"
  shows "bp_sorted (children (Internal c0 kcs) ! internal_find_pos (Internal c0 kcs) k)"
proof -
  have "internal_find_pos (Internal c0 kcs) k \<le> length kcs"
    using internal_find_pos_le [of "Internal c0 kcs" k] by (simp add: num_keys_def)
  then have "children (Internal c0 kcs) ! internal_find_pos (Internal c0 kcs) k
      \<in> set (children (Internal c0 kcs))"
    by (intro nth_mem) simp
  then show ?thesis using assms by auto
qed

lemma insert_recursive_sorted:
  assumes "bp_sorted t" "ekey e = k"
  shows "res_sorted (snd (insert_recursive t k e)) \<and>
         res_keys (snd (insert_recursive t k e)) \<subseteq> insert k (tree_keys t) \<and>
         res_slots (snd (insert_recursive t k e)) = slot_put k e (chain_slots t)"
  using assms
proof (induction t k e rule: insert_recursive.induct)
  case (1 kes k entry)
  define X where "X = slot_put k entry kes"
  have so: "sorted_wrt (<) (map fst kes)" using 1 by simp
  have sx: "bp_sorted (Leaf X)"
    using 1 slot_put_sorted [OF so, of k entry] slot_put_ekey [of entry k kes]
    by (simp add: X_def)
  have kx: "tree_keys (Leaf X) = insert k (tree_keys (Leaf kes))"
    by (simp add: X_def slot_put_keys)
  have ir: "snd (insert_recursive (Leaf kes) k entry) = NoSplit (Leaf X) \<or>
            (snd (insert_recursive (Leaf kes) k entry) = split_leaf (Leaf X) \<and> ORDER - 1 \<le> length X)"
    unfolding insert_leaf_result [OF so 1(2)] X_def by simp
  then show ?case
  proof
    assume "snd (insert_recursive (Leaf kes) k entry) = NoSplit (Leaf X)"
    then show ?thesis using sx kx by (simp add: X_def)
  next
    assume a: "snd (insert_recursive (Leaf kes) k entry) = split_leaf (Leaf X) \<and> ORDER - 1 \<le> length X"
    then have "2 \<le> length X" by (simp add: ORDER_def)
    from split_leaf_sorted [OF sx this] show ?thesis
      using a kx by (simp add: X_def)
  qed
next
  case (2 c0 kcs k entry)
  define pos where "pos = internal_find_pos (Internal c0 kcs) k"
  define child where "child = children (Internal c0 kcs) ! pos"
  define res where "res = insert_recursive child k entry"
  define node' where "node' = (case snd res of NoSplit c' \<Rightarrow> set_child (Internal c0 kcs) pos c'
                     | Split l u rr \<Rightarrow> parent_insert (Internal c0 kcs) pos l u rr)"
  have cs: "bp_sorted child"
    using internal_child_sorted [OF 2(2), of k] by (simp add: child_def pos_def)
  have ih: "res_sorted (snd res) \<and> res_keys (snd res) \<subseteq> insert k (tree_keys child) \<and>
            res_slots (snd res) = slot_put k entry (chain_slots child)"
    unfolding res_def child_def pos_def
    by (rule "2.IH" [OF refl refl _ 2(3)]) (use cs in \<open>simp add: child_def pos_def\<close>)
  have st: "bp_sorted node' \<and> tree_keys node' \<subseteq> insert k (tree_keys (Internal c0 kcs)) \<and>
         chain_slots node' = slot_put k entry (chain_slots (Internal c0 kcs)) \<and> \<not> is_leaf node'"
    by (rule internal_step [OF 2(2) pos_def _ _ _ node'_def])
       (use ih in \<open>simp_all add: child_def\<close>)
  have ir: "snd (insert_recursive (Internal c0 kcs) k entry) =
       (if num_keys node' \<ge> ORDER - 1 then split_internal node' else NoSplit node')"
    unfolding node'_def res_def child_def pos_def
    by (subst insert_recursive.simps) (simp only: Let_def snd_conv if_distrib [of snd])
  show ?case
  proof (cases "num_keys node' \<ge> ORDER - 1")
    case False
    then show ?thesis using ir st by simp
  next
    case True
    obtain c Z where z: "node' = Internal c Z" using st by (cases node') auto
    have "2 \<le> length Z" using True z by (simp add: num_keys_def ORDER_def)
    from split_internal_sorted [OF _ this, of c] show ?thesis
      using ir st True z by simp
  qed
qed

lemma res_root_sorted:
  "res_sorted r \<Longrightarrow> bp_sorted (res_root r) \<and> chain_slots (res_root r) = res_slots r"
  by (cases r) auto

lemma res_root_case:
  "(case r of NoSplit n \<Rightarrow> n | Split l up_key rr \<Rightarrow> Internal l [(up_key, rr)]) = res_root r"
  by (cases r) simp_all

section \<open>The leaf that a key is routed to\<close>

lemma child_zone:
  assumes S: "bp_sorted (Internal c0 kcs)"
    and pos: "pos = internal_find_pos (Internal c0 kcs) k"
  shows "\<exists>PRE POST. chain_slots (Internal c0 kcs) =
                      PRE @ chain_slots (children (Internal c0 kcs) ! pos) @ POST \<and>
           (\<forall>a\<in>set PRE. fst a < k) \<and> (\<forall>s\<in>set POST. k < fst s) \<and>
           (\<forall>c'. chain_slots (set_child (Internal c0 kcs) pos c') = PRE @ chain_slots c' @ POST) \<and>
           (\<forall>c'. bp_sorted c' \<longrightarrow>
                 tree_keys c' \<subseteq> tree_keys (children (Internal c0 kcs) ! pos) \<longrightarrow>
                 bp_sorted (set_child (Internal c0 kcs) pos c') \<and>
                 tree_keys (set_child (Internal c0 kcs) pos c') \<subseteq> tree_keys (Internal c0 kcs))"
proof (cases pos)
  case 0
  have so: "sorted_wrt (<) (map fst kcs)" using S by simp
  have kb: "\<forall>kc\<in>set kcs. k < fst kc"
    using so pos 0 by (intro internal_pos_zero [of kcs c0 k]) simp_all
  define POST where "POST = concat (map (\<lambda>kc. chain_slots (snd kc)) kcs)"
  have "seps_ok c0 kcs" using S by simp
  then have po: "\<forall>s\<in>set POST. k < fst s"
    unfolding POST_def using kb by (rule post_slots_above)
  have 1: "chain_slots (Internal c0 kcs) = [] @ chain_slots (children (Internal c0 kcs) ! pos) @ POST"
    using 0 by (simp add: POST_def)
  have 2: "\<forall>c'. chain_slots (set_child (Internal c0 kcs) pos c') = [] @ chain_slots c' @ POST"
    using 0 by (simp add: POST_def)
  have 3: "bp_sorted (set_child (Internal c0 kcs) pos c') \<and>
           tree_keys (set_child (Internal c0 kcs) pos c') \<subseteq> tree_keys (Internal c0 kcs)"
    if a: "bp_sorted c'" "tree_keys c' \<subseteq> tree_keys (children (Internal c0 kcs) ! pos)" for c'
  proof -
    have k': "tree_keys c' \<subseteq> insert k (tree_keys c0)" using a(2) 0 by auto
    have "bp_sorted (Internal c' kcs)"
      using S a(1) k' kb by (rule replace_first_child)
    moreover have "tree_keys (Internal c' kcs) \<subseteq> tree_keys (Internal c0 kcs)"
      using a(2) 0 by auto
    ultimately show ?thesis using 0 by simp
  qed
  show ?thesis
    using 1 2 3 po by (intro exI [of _ "[]"] exI [of _ POST]) simp
next
  case (Suc j)
  have so: "sorted_wrt (<) (map fst kcs)" using S by simp
  have ps: "internal_find_pos (Internal c0 kcs) k = Suc j" using pos Suc by simp
  note f = internal_pos_Suc [OF so ps]
  define A where "A = take j kcs"
  define B where "B = drop (Suc j) kcs"
  define kp where "kp = fst (kcs ! j)"
  define cp where "cp = snd (kcs ! j)"
  have dec: "kcs = A @ (kp, cp) # B" using f(4) by (simp add: A_def B_def kp_def cp_def)
  have kpk: "kp \<le> k" using f(2) by (simp add: kp_def)
  have kb: "\<forall>kc\<in>set B. k < fst kc" using f(3) by (simp add: B_def)
  have S': "bp_sorted (Internal c0 (A @ (kp, cp) # B))" using S unfolding dec .
  note p = mid_ctx_parts [OF S']
  have ch: "children (Internal c0 kcs) ! pos = cp" using Suc f(1) by (simp add: cp_def)
  have sc: "set_child (Internal c0 kcs) pos c' = Internal c0 (A @ (kp, c') # B)" for c'
    using Suc set_child_Suc [OF f(1), of c0 c'] by (simp add: A_def B_def kp_def)
  define PRE where "PRE = chain_slots (Internal c0 A)"
  define POST where "POST = concat (map (\<lambda>kc. chain_slots (snd kc)) B)"
  have "\<forall>a\<in>set PRE. fst a < kp"
    unfolding PRE_def using p(3) slots_keys_subset [of "Internal c0 A"] by blast
  then have pr: "\<forall>a\<in>set PRE. fst a < k" using kpk by (meson less_le_trans)
  have "seps_ok cp B" using p(2) by simp
  then have po: "\<forall>s\<in>set POST. k < fst s"
    unfolding POST_def using kb by (rule post_slots_above)
  have 1: "chain_slots (Internal c0 kcs) = PRE @ chain_slots (children (Internal c0 kcs) ! pos) @ POST"
    unfolding ch by (subst dec) (simp add: PRE_def POST_def)
  have 2: "\<forall>c'. chain_slots (set_child (Internal c0 kcs) pos c') = PRE @ chain_slots c' @ POST"
    unfolding sc by (simp add: PRE_def POST_def)
  have 3: "bp_sorted (set_child (Internal c0 kcs) pos c') \<and>
           tree_keys (set_child (Internal c0 kcs) pos c') \<subseteq> tree_keys (Internal c0 kcs)"
    if a: "bp_sorted c'" "tree_keys c' \<subseteq> tree_keys (children (Internal c0 kcs) ! pos)" for c'
  proof -
    have k': "tree_keys c' \<subseteq> insert k (tree_keys cp)" using a(2) ch by auto
    have "bp_sorted (Internal c0 (A @ (kp, c') # B))"
      using S' kpk kb a(1) k' by (rule mid_ctx_replace)
    moreover have "tree_keys (Internal c' B) \<subseteq> tree_keys (Internal cp B)"
      using a(2) ch by auto
    then have "tree_keys (Internal c0 (A @ (kp, c') # B)) \<subseteq> tree_keys (Internal c0 (A @ (kp, cp) # B))"
      unfolding tree_keys_split by blast
    ultimately show ?thesis unfolding sc using dec by simp
  qed
  show ?thesis
    using 1 2 3 pr po by (intro exI [of _ PRE] exI [of _ POST]) simp
qed

lemma find_leaf_zone:
  assumes "bp_sorted t"
  shows "\<exists>PRE POST kes. find_leaf t k = Leaf kes \<and> bp_sorted (Leaf kes) \<and>
           chain_slots t = PRE @ kes @ POST \<and>
           (\<forall>a\<in>set PRE. fst a < k) \<and> (\<forall>s\<in>set POST. k < fst s) \<and>
           (\<forall>kes'. bp_sorted (Leaf kes') \<longrightarrow> fst ` set kes' \<subseteq> fst ` set kes \<longrightarrow>
              chain_slots (store_leaf t k (Leaf kes')) = PRE @ kes' @ POST \<and>
              bp_sorted (store_leaf t k (Leaf kes')) \<and>
              tree_keys (store_leaf t k (Leaf kes')) \<subseteq> tree_keys t)"
  using assms
proof (induction t k rule: find_leaf.induct)
  case (1 kes k)
  show ?case
    by (rule exI [of _ "[]"], rule exI [of _ "[]"], rule exI [of _ kes]) (use 1 in auto)
next
  case (2 c0 kcs k)
  define pos where "pos = internal_find_pos (Internal c0 kcs) k"
  define child where "child = children (Internal c0 kcs) ! pos"
  have cs: "bp_sorted child"
    using internal_child_sorted [OF 2(2), of k] by (simp add: child_def pos_def)
  obtain P1 Q1 kes where ih: "find_leaf child k = Leaf kes" "bp_sorted (Leaf kes)"
    "chain_slots child = P1 @ kes @ Q1" "\<forall>a\<in>set P1. fst a < k" "\<forall>s\<in>set Q1. k < fst s"
    "\<forall>kes'. bp_sorted (Leaf kes') \<longrightarrow> fst ` set kes' \<subseteq> fst ` set kes \<longrightarrow>
              chain_slots (store_leaf child k (Leaf kes')) = P1 @ kes' @ Q1 \<and>
              bp_sorted (store_leaf child k (Leaf kes')) \<and>
              tree_keys (store_leaf child k (Leaf kes')) \<subseteq> tree_keys child"
    using "2.IH" cs unfolding child_def pos_def by blast
  obtain P2 Q2 where z: "chain_slots (Internal c0 kcs) = P2 @ chain_slots child @ Q2"
    "\<forall>a\<in>set P2. fst a < k" "\<forall>s\<in>set Q2. k < fst s"
    "\<forall>c'. chain_slots (set_child (Internal c0 kcs) pos c') = P2 @ chain_slots c' @ Q2"
    "\<forall>c'. bp_sorted c' \<longrightarrow> tree_keys c' \<subseteq> tree_keys child \<longrightarrow>
                 bp_sorted (set_child (Internal c0 kcs) pos c') \<and>
                 tree_keys (set_child (Internal c0 kcs) pos c') \<subseteq> tree_keys (Internal c0 kcs)"
    using child_zone [OF 2(2) pos_def] unfolding child_def by blast
  have fl: "find_leaf (Internal c0 kcs) k = Leaf kes"
    using ih(1) by (simp add: child_def pos_def)
  have st: "store_leaf (Internal c0 kcs) k l = set_child (Internal c0 kcs) pos (store_leaf child k l)" for l
    by (simp add: Let_def child_def pos_def)
  have 1: "chain_slots (Internal c0 kcs) = (P2 @ P1) @ kes @ (Q1 @ Q2)"
    unfolding z(1) ih(3) by simp
  have 2: "\<forall>a\<in>set (P2 @ P1). fst a < k" using z(2) ih(4) by auto
  have 3: "\<forall>s\<in>set (Q1 @ Q2). k < fst s" using z(3) ih(5) by auto
  have 4: "chain_slots (store_leaf (Internal c0 kcs) k (Leaf kes')) = (P2 @ P1) @ kes' @ (Q1 @ Q2) \<and>
           bp_sorted (store_leaf (Internal c0 kcs) k (Leaf kes')) \<and>
           tree_keys (store_leaf (Internal c0 kcs) k (Leaf kes')) \<subseteq> tree_keys (Internal c0 kcs)"
    if a: "bp_sorted (Leaf kes')" "fst ` set kes' \<subseteq> fst ` set kes" for kes'
  proof -
    have c: "chain_slots (store_leaf child k (Leaf kes')) = P1 @ kes' @ Q1"
      "bp_sorted (store_leaf child k (Leaf kes'))"
      "tree_keys (store_leaf child k (Leaf kes')) \<subseteq> tree_keys child"
      using ih(6) a by blast+
    show ?thesis
      unfolding st using z(4) z(5) c by simp
  qed
  show ?case
    by (rule exI [of _ "P2 @ P1"], rule exI [of _ "Q1 @ Q2"], rule exI [of _ kes])
       (use fl ih(2) 1 2 3 4 in blast)
qed

lemma leaf_hit:
  assumes "sorted_wrt (<) (map fst kes)"
  shows "(leaf_find_pos (Leaf kes) k < length kes \<and> fst (kes ! leaf_find_pos (Leaf kes) k) = k)
           \<longleftrightarrow> k \<in> fst ` set kes"
proof -
  define pos where "pos = leaf_find_pos (Leaf kes) k"
  have p: "pos \<le> length kes" "\<forall>a\<in>set (take pos kes). fst a < k"
    "\<forall>c\<in>set (drop pos kes). k \<le> fst c"
    using leaf_pos_split [OF assms(1), of k] by (simp_all add: pos_def)
  have "k \<in> fst ` set kes \<Longrightarrow> pos < length kes \<and> fst (kes ! pos) = k"
  proof -
    assume "k \<in> fst ` set kes"
    then obtain ke where ke: "ke \<in> set kes" "fst ke = k" by auto
    have "set kes = set (take pos kes) \<union> set (drop pos kes)"
      by (metis append_take_drop_id set_append)
    then have kd: "ke \<in> set (drop pos kes)" using ke p(2) by auto
    then have ne: "drop pos kes \<noteq> []" by auto
    then have lt: "pos < length kes" by simp
    then have d: "drop pos kes = kes ! pos # drop (Suc pos) kes"
      by (simp add: Cons_nth_drop_Suc)
    have "sorted_wrt (<) (map fst (drop pos kes))"
      using assms(1) by (simp add: drop_map [symmetric] sorted_wrt_drop)
    then have "\<forall>x\<in>set (drop (Suc pos) kes). fst (kes ! pos) < fst x"
      unfolding d by simp
    moreover have "k \<le> fst (kes ! pos)" using p(3) d by simp
    ultimately have "ke = kes ! pos"
      using kd ke(2) unfolding d by auto
    then show ?thesis using lt ke(2) by simp
  qed
  moreover have "pos < length kes \<and> fst (kes ! pos) = k \<Longrightarrow> k \<in> fst ` set kes"
    by (metis image_eqI nth_mem)
  ultimately show ?thesis unfolding pos_def by blast
qed

lemma map_of_nth_distinct:
  "distinct (map fst xs) \<Longrightarrow> i < length xs \<Longrightarrow> map_of xs (fst (xs ! i)) = Some (snd (xs ! i))"
  by (metis map_of_eq_Some_iff nth_mem prod.collapse)

lemma leaf_hit_map_of:
  assumes "sorted_wrt (<) (map fst kes)"
    and "leaf_find_pos (Leaf kes) k < length kes" "fst (kes ! leaf_find_pos (Leaf kes) k) = k"
  shows "map_of kes k = Some (snd (kes ! leaf_find_pos (Leaf kes) k))"
proof -
  have "distinct (map fst kes)" using assms(1) strict_sorted_iff by blast
  from map_of_nth_distinct [OF this assms(2)] show ?thesis using assms(3) by simp
qed

lemma map_of_zone:
  fixes k :: "'a::order"
  assumes "\<forall>a\<in>set PRE. fst a < k" "\<forall>s\<in>set POST. k < fst s"
  shows "map_of (PRE @ kes @ POST) k = map_of kes k"
proof -
  have "k \<notin> fst ` set PRE" using assms(1) by force
  then have 1: "map_of PRE k = None" by (simp add: map_of_eq_None_iff)
  have "k \<notin> fst ` set POST" using assms(2) by force
  then have 2: "map_of POST k = None" by (simp add: map_of_eq_None_iff)
  show ?thesis
    by (simp add: map_add_def 1 2 split: option.splits)
qed

section \<open>Lists of slots\<close>

lemma slot_put_other:
  "ke \<in> set (slot_put k e xs) \<Longrightarrow> fst ke \<noteq> k \<Longrightarrow> ke \<in> set xs"
  by (induction xs) (auto split: if_splits)

lemma slot_put_map_of:
  fixes k :: "byte list"
  assumes "sorted_wrt (<) (map fst xs)"
  shows "map_of (slot_put k e xs) =
     (map_of xs)(k \<mapsto> (case map_of xs k of
                          None \<Rightarrow> e
                        | Some e' \<Rightarrow> if edeleted e' then e else e'\<lparr>evalue := evalue e\<rparr>))"
  using assms
proof (induction xs)
  case Nil
  then show ?case by simp
next
  case (Cons a xs)
  show ?case
  proof (cases "fst a < k")
    case True
    then have "fst a \<noteq> k" by auto
    then show ?thesis using True Cons by (cases a) (auto simp: fun_upd_twist)
  next
    case False
    show ?thesis
    proof (cases "fst a = k")
      case True
      then show ?thesis by (cases a) auto
    next
      case ne: False
      have "\<forall>x\<in>set xs. fst a < fst x" using Cons.prems by auto
      moreover have "k < fst a" using False ne by auto
      ultimately have "k \<notin> fst ` set xs" by force
      then have "map_of xs k = None" by (simp add: map_of_eq_None_iff)
      then show ?thesis using False ne by (cases a) (auto simp: fun_upd_twist)
    qed
  qed
qed

lemma slot_put_live_count:
  fixes k :: "byte list"
  assumes "sorted_wrt (<) (map fst xs)" "\<not> edeleted e"
  shows "length (filter live (slot_put k e xs)) =
         length (filter live xs) + (if \<exists>e'. (k, e') \<in> set xs \<and> \<not> edeleted e' then 0 else 1)"
  using assms
proof (induction xs)
  case Nil
  then show ?case by (simp add: live_def)
next
  case (Cons a xs)
  show ?case
  proof (cases "fst a < k")
    case True
    then have "fst a \<noteq> k" by auto
    then have "(\<exists>e'. (k, e') \<in> set (a # xs) \<and> \<not> edeleted e') = (\<exists>e'. (k, e') \<in> set xs \<and> \<not> edeleted e')"
      by (cases a) auto
    then show ?thesis using True Cons by simp
  next
    case False
    have ab: "\<forall>x\<in>set xs. fst a < fst x" using Cons.prems by auto
    show ?thesis
    proof (cases "fst a = k")
      case True
      have "k \<notin> fst ` set xs" using ab True by force
      then have "(\<exists>e'. (k, e') \<in> set (a # xs) \<and> \<not> edeleted e') = (\<not> edeleted (snd a))"
        using True by (cases a) force
      then show ?thesis using True Cons.prems(2) by (simp add: live_def)
    next
      case ne: False
      have "k < fst a" using False ne by auto
      then have "k \<notin> fst ` set (a # xs)" using ab ne by force
      then have "\<not> (\<exists>e'. (k, e') \<in> set (a # xs) \<and> \<not> edeleted e')" by force
      then show ?thesis using False ne Cons.prems(2) by (simp add: live_def)
    qed
  qed
qed

lemma slot_put_cost:
  assumes "ekey e = k" "\<forall>ke\<in>set xs. ekey (snd ke) = fst ke"
  shows "sum_list (map slot_cost (slot_put k e xs)) \<le> sum_list (map slot_cost xs) + slot_cost (k, e)"
  using assms
proof (induction xs)
  case Nil
  then show ?case by simp
next
  case (Cons a xs)
  then show ?case by (auto simp: slot_cost_def)
qed

lemma slot_delete_keys [simp]: "map fst (slot_delete k xs) = map fst xs"
  by (induction xs) (simp_all add: slot_delete_def)

lemma slot_delete_cost [simp]: "map slot_cost (slot_delete k xs) = map slot_cost xs"
  by (induction xs) (simp_all add: slot_delete_def slot_cost_def)

lemma slot_delete_ekey:
  "\<forall>ke\<in>set xs. ekey (snd ke) = fst ke \<Longrightarrow> \<forall>ke\<in>set (slot_delete k xs). ekey (snd ke) = fst ke"
  by (auto simp: slot_delete_def)

lemma slot_delete_append:
  "slot_delete k (xs @ ys) = slot_delete k xs @ slot_delete k ys"
  by (simp add: slot_delete_def)

lemma slot_delete_absent:
  "k \<notin> fst ` set xs \<Longrightarrow> slot_delete k xs = xs"
  unfolding slot_delete_def by (induction xs) auto

lemma slot_delete_nth:
  assumes "distinct (map fst xs)" "i < length xs" "fst (xs ! i) = k"
  shows "xs[i := (fst (xs ! i), (snd (xs ! i))\<lparr>edeleted := True\<rparr>)] = slot_delete k xs"
proof (rule nth_equalityI)
  show "length (xs[i := (fst (xs ! i), (snd (xs ! i))\<lparr>edeleted := True\<rparr>)]) = length (slot_delete k xs)"
    by (simp add: slot_delete_def)
next
  fix j assume j: "j < length (xs[i := (fst (xs ! i), (snd (xs ! i))\<lparr>edeleted := True\<rparr>)])"
  then have jl: "j < length xs" by simp
  show "xs[i := (fst (xs ! i), (snd (xs ! i))\<lparr>edeleted := True\<rparr>)] ! j = slot_delete k xs ! j"
  proof (cases "j = i")
    case True
    then show ?thesis using assms by (simp add: slot_delete_def)
  next
    case False
    have "j < length (map fst xs)" "i < length (map fst xs)" using jl assms(2) by simp_all
    then have "map fst xs ! j \<noteq> map fst xs ! i"
      using assms(1) False nth_eq_iff_index_eq by blast
    then have "fst (xs ! j) \<noteq> k" using assms jl by simp
    then show ?thesis using False jl by (simp add: slot_delete_def)
  qed
qed

lemma slot_delete_live_count:
  assumes "distinct (map fst xs)" "(k, e) \<in> set xs" "\<not> edeleted e"
  shows "length (filter live (slot_delete k xs)) + 1 = length (filter live xs)"
  using assms
proof (induction xs)
  case Nil
  then show ?case by simp
next
  case (Cons a xs)
  show ?case
  proof (cases "fst a = k")
    case True
    then have "k \<notin> fst ` set xs" using Cons.prems(1) by auto
    then have d: "slot_delete k xs = xs" by (rule slot_delete_absent)
    have "(k, e) \<notin> set xs" using \<open>k \<notin> fst ` set xs\<close> by force
    then have "a = (k, e)" using Cons.prems(2) by simp
    then show ?thesis
      using Cons.prems(3) d by (simp add: slot_delete_def live_def)
  next
    case False
    then have "(k, e) \<in> set xs" using Cons.prems(2) by auto
    then have "length (filter live (slot_delete k xs)) + 1 = length (filter live xs)"
      using Cons.prems by (intro Cons.IH) auto
    then show ?thesis using False by (simp add: slot_delete_def)
  qed
qed

lemma slot_delete_map_of:
  "map_of (slot_delete k xs) =
     (case map_of xs k of None \<Rightarrow> map_of xs
      | Some e \<Rightarrow> (map_of xs)(k \<mapsto> e\<lparr>edeleted := True\<rparr>))"
proof (induction xs)
  case Nil
  then show ?case by (simp add: slot_delete_def)
next
  case (Cons a xs)
  then show ?case
    by (cases a) (auto simp: slot_delete_def fun_upd_twist split: option.splits)
qed

lemma slot_delete_live:
  "ke \<in> set (slot_delete k xs) \<Longrightarrow> live ke \<Longrightarrow> ke \<in> set xs"
  by (auto simp: slot_delete_def live_def split: if_splits)

section \<open>Bloom filter\<close>

lemma bloom_set_bit_frame [simp]:
  "root (bloom_set_bit db p) = root db" "count (bloom_set_bit db p) = count db"
  "pool_pos (bloom_set_bit db p) = pool_pos db" "pool_size (bloom_set_bit db p) = pool_size db"
  "bloom_bits (bloom_set_bit db p) = bloom_bits db"
  by (simp_all add: bloom_set_bit_def)

lemma bloom_set_bit_bloom [simp]: "bloom (bloom_set_bit db p) = insert p (bloom db)"
  by (auto simp: bloom_set_bit_def)

lemma bloom_add_frame [simp]:
  "root (bloom_add db k) = root db" "count (bloom_add db k) = count db"
  "pool_pos (bloom_add db k) = pool_pos db" "pool_size (bloom_add db k) = pool_size db"
  "bloom_bits (bloom_add db k) = bloom_bits db"
  by (simp_all add: bloom_add_def Let_def)

lemma bloom_add_bloom: "bloom (bloom_add db k) = bloom db \<union> bloom_positions (bloom_bits db) k"
  by (auto simp: bloom_add_def Let_def bloom_positions_def)

lemma bloom_maybe_iff: "bloom_maybe db k \<longleftrightarrow> bloom_positions (bloom_bits db) k \<subseteq> bloom db"
  by (simp add: bloom_maybe_def bloom_get_bit_def bloom_positions_def Let_def)

lemma rebuild_fold:
  "root (fold (\<lambda>ke d. if \<not> edeleted (snd ke) then bloom_add d (fst ke) else d) xs d) = root d \<and>
   count (fold (\<lambda>ke d. if \<not> edeleted (snd ke) then bloom_add d (fst ke) else d) xs d) = count d \<and>
   pool_pos (fold (\<lambda>ke d. if \<not> edeleted (snd ke) then bloom_add d (fst ke) else d) xs d) = pool_pos d \<and>
   pool_size (fold (\<lambda>ke d. if \<not> edeleted (snd ke) then bloom_add d (fst ke) else d) xs d) = pool_size d \<and>
   bloom_bits (fold (\<lambda>ke d. if \<not> edeleted (snd ke) then bloom_add d (fst ke) else d) xs d) = bloom_bits d \<and>
   bloom (fold (\<lambda>ke d. if \<not> edeleted (snd ke) then bloom_add d (fst ke) else d) xs d) =
     bloom d \<union> (\<Union>ke\<in>{ke \<in> set xs. live ke}. bloom_positions (bloom_bits d) (fst ke))"
proof (induction xs arbitrary: d)
  case Nil
  show ?case by simp
next
  case (Cons a xs)
  show ?case
  proof (cases "edeleted (snd a)")
    case True
    then have "{ke \<in> set (a # xs). live ke} = {ke \<in> set xs. live ke}"
      by (auto simp: live_def)
    then show ?thesis using True Cons [of d] by simp
  next
    case False
    then have "{ke \<in> set (a # xs). live ke} = insert a {ke \<in> set xs. live ke}"
      by (auto simp: live_def)
    then show ?thesis
      using False Cons [of "bloom_add d (fst a)"] by (simp add: bloom_add_bloom Un_assoc)
  qed
qed

lemma bloom_rebuild_frame [simp]:
  "root (bloom_rebuild db) = root db" "count (bloom_rebuild db) = count db"
  "pool_pos (bloom_rebuild db) = pool_pos db" "pool_size (bloom_rebuild db) = pool_size db"
  "bloom_bits (bloom_rebuild db) = bloom_bits db"
  using rebuild_fold [of "chain_slots (root db)" db] by (simp_all add: bloom_rebuild_def)

lemma bloom_rebuild_bloom:
  "bloom (bloom_rebuild db) =
     bloom db \<union> (\<Union>ke\<in>{ke \<in> set (chain_slots (root db)). live ke}.
                    bloom_positions (bloom_bits db) (fst ke))"
  using rebuild_fold [of "chain_slots (root db)" db] by (simp add: bloom_rebuild_def)

lemma bloom_rebuild_covers: "bloom_covers (bloom_rebuild db)"
  unfolding bloom_covers_def bloom_maybe_iff
  by (auto simp: bloom_rebuild_bloom)

lemma bloom_expand_frame [simp]:
  "root (bloom_expand db) = root db" "count (bloom_expand db) = count db"
  "pool_pos (bloom_expand db) = pool_pos db" "pool_size (bloom_expand db) = pool_size db"
  by (simp_all add: bloom_expand_def Let_def)

lemma bloom_expand_covers: "bloom_covers db \<Longrightarrow> bloom_covers (bloom_expand db)"
  by (simp add: bloom_expand_def Let_def bloom_rebuild_covers)

lemma bloom_check_expand_frame [simp]:
  "root (bloom_check_expand db) = root db" "count (bloom_check_expand db) = count db"
  "pool_pos (bloom_check_expand db) = pool_pos db"
  "pool_size (bloom_check_expand db) = pool_size db"
  by (simp_all add: bloom_check_expand_def)

lemma bloom_check_expand_covers: "bloom_covers db \<Longrightarrow> bloom_covers (bloom_check_expand db)"
  by (simp add: bloom_check_expand_def bloom_expand_covers)

lemma bloom_maybe_frame:
  "bloom db' = bloom db \<Longrightarrow> bloom_bits db' = bloom_bits db \<Longrightarrow> bloom_maybe db' k = bloom_maybe db k"
  by (simp add: bloom_maybe_iff)

section \<open>Lookup\<close>

lemma kvs_get_raw_map_of:
  assumes "bp_sorted (root db)"
  shows "kvs_get_raw db k =
     (if bloom_maybe db k then
        (case map_of (chain_slots (root db)) k of
           None \<Rightarrow> None
         | Some e \<Rightarrow> if edeleted e then None else Some (evalue e))
      else None)"
proof -
  obtain PRE POST kes where z: "find_leaf (root db) k = Leaf kes" "bp_sorted (Leaf kes)"
    "chain_slots (root db) = PRE @ kes @ POST"
    "\<forall>a\<in>set PRE. fst a < k" "\<forall>s\<in>set POST. k < fst s"
    using find_leaf_zone [OF assms, of k] by blast
  define pos where "pos = leaf_find_pos (Leaf kes) k"
  have so: "sorted_wrt (<) (map fst kes)" using z(2) by simp
  have m: "map_of (chain_slots (root db)) k = map_of kes k"
    unfolding z(3) using z(4,5) by (rule map_of_zone)
  have hit: "(pos < length kes \<and> fst (kes ! pos) = k) \<longleftrightarrow> k \<in> fst ` set kes"
    unfolding pos_def using so by (rule leaf_hit)
  have c: "(pos < num_keys (Leaf kes) \<and> keycmp (keys (Leaf kes) ! pos) k = 0 \<and>
            \<not> edeleted (entries (Leaf kes) ! pos)) =
           (pos < length kes \<and> fst (kes ! pos) = k \<and> \<not> edeleted (snd (kes ! pos)))"
    by (auto simp: num_keys_def)
  have g: "kvs_get_raw db k =
      (if \<not> bloom_maybe db k then None
       else if pos < length kes \<and> fst (kes ! pos) = k \<and> \<not> edeleted (snd (kes ! pos))
            then Some (evalue (snd (kes ! pos))) else None)"
    unfolding kvs_get_raw_def z(1) Let_def pos_def [symmetric] c
    by (simp cong: if_cong)
  show ?thesis
  proof (cases "pos < length kes \<and> fst (kes ! pos) = k")
    case True
    have "map_of kes k = Some (snd (kes ! pos))"
      unfolding pos_def using so True by (intro leaf_hit_map_of) (simp_all add: pos_def)
    then show ?thesis unfolding g m using True by simp
  next
    case False
    then have "k \<notin> fst ` set kes" using hit by simp
    then have "map_of kes k = None" by (simp add: map_of_eq_None_iff)
    then show ?thesis unfolding g m using False by auto
  qed
qed

section \<open>Delete\<close>

lemma kvs_delete_slots:
  assumes "bp_sorted (root db)"
  shows "\<exists>R. bp_sorted R \<and> chain_slots R = slot_delete (take (strlen key) key) (chain_slots (root db)) \<and>
     kvs_delete db key =
       (if bloom_maybe db (take (strlen key) key) \<and>
           (\<exists>e. (take (strlen key) key, e) \<in> set (chain_slots (root db)) \<and> \<not> edeleted e)
        then (KVS_OK, db\<lparr>root := R, count := (count db + 2 ^ 64 - 1) mod 2 ^ 64\<rparr>)
        else (KVS_ERR_NOTFOUND, db))"
proof -
  define k where "k = take (strlen key) key"
  obtain PRE POST kes where z: "find_leaf (root db) k = Leaf kes" "bp_sorted (Leaf kes)"
    "chain_slots (root db) = PRE @ kes @ POST"
    "\<forall>a\<in>set PRE. fst a < k" "\<forall>s\<in>set POST. k < fst s"
    "\<forall>kes'. bp_sorted (Leaf kes') \<longrightarrow> fst ` set kes' \<subseteq> fst ` set kes \<longrightarrow>
              chain_slots (store_leaf (root db) k (Leaf kes')) = PRE @ kes' @ POST \<and>
              bp_sorted (store_leaf (root db) k (Leaf kes')) \<and>
              tree_keys (store_leaf (root db) k (Leaf kes')) \<subseteq> tree_keys (root db)"
    using find_leaf_zone [OF assms, of k] by blast
  define pos where "pos = leaf_find_pos (Leaf kes) k"
  define kes' where "kes' = kes[pos := (fst (kes ! pos), (snd (kes ! pos))\<lparr>edeleted := True\<rparr>)]"
  define R where "R = store_leaf (root db) k (Leaf (slot_delete k kes))"
  have so: "sorted_wrt (<) (map fst kes)" using z(2) by simp
  have di: "distinct (map fst kes)" using so strict_sorted_iff by blast
  have kp: "k \<notin> fst ` set PRE" using z(4) by force
  have kq: "k \<notin> fst ` set POST" using z(5) by force
  have sd: "slot_delete k (chain_slots (root db)) = PRE @ slot_delete k kes @ POST"
    unfolding z(3) slot_delete_append using kp kq by (simp add: slot_delete_absent)
  have "bp_sorted (Leaf (slot_delete k kes))"
    using z(2) slot_delete_ekey [of kes k] by simp
  moreover have "fst ` set (slot_delete k kes) \<subseteq> fst ` set kes"
    by (metis list.set_map slot_delete_keys subset_refl)
  ultimately have r: "chain_slots R = PRE @ slot_delete k kes @ POST" "bp_sorted R"
    unfolding R_def using z(6) by blast+
  have hit: "(pos < length kes \<and> fst (kes ! pos) = k) \<longleftrightarrow> k \<in> fst ` set kes"
    unfolding pos_def using so by (rule leaf_hit)
  have c: "(pos < num_keys (Leaf kes) \<and> keycmp (keys (Leaf kes) ! pos) k = 0 \<and>
            \<not> edeleted (entries (Leaf kes) ! pos)) =
           (pos < length kes \<and> fst (kes ! pos) = k \<and> \<not> edeleted (snd (kes ! pos)))"
    by (auto simp: num_keys_def)
  have ex: "(\<exists>e. (k, e) \<in> set (chain_slots (root db)) \<and> \<not> edeleted e) \<longleftrightarrow>
            (pos < length kes \<and> fst (kes ! pos) = k \<and> \<not> edeleted (snd (kes ! pos)))"
  proof -
    have "distinct (map fst (chain_slots (root db)))"
      using chain_slots_sorted [OF assms] strict_sorted_iff by blast
    then have "(k, e) \<in> set (chain_slots (root db)) \<longleftrightarrow> map_of (chain_slots (root db)) k = Some e" for e
      by simp
    then have "(\<exists>e. (k, e) \<in> set (chain_slots (root db)) \<and> \<not> edeleted e) \<longleftrightarrow>
          (\<exists>e. map_of (chain_slots (root db)) k = Some e \<and> \<not> edeleted e)"
      by simp
    also have "\<dots> \<longleftrightarrow> (\<exists>e. map_of kes k = Some e \<and> \<not> edeleted e)"
      unfolding z(3) using map_of_zone [OF z(4,5), of kes] by simp
    also have "\<dots> \<longleftrightarrow> (pos < length kes \<and> fst (kes ! pos) = k \<and> \<not> edeleted (snd (kes ! pos)))"
    proof (cases "pos < length kes \<and> fst (kes ! pos) = k")
      case True
      have "map_of kes k = Some (snd (kes ! pos))"
        unfolding pos_def using so True by (intro leaf_hit_map_of) (simp_all add: pos_def)
      then show ?thesis using True by simp
    next
      case False
      then have "k \<notin> fst ` set kes" using hit by simp
      then have "map_of kes k = None" by (simp add: map_of_eq_None_iff)
      then show ?thesis using False by auto
    qed
    finally show ?thesis .
  qed
  have d: "kvs_delete db key =
      (if \<not> bloom_maybe db k then (KVS_ERR_NOTFOUND, db)
       else if pos < length kes \<and> fst (kes ! pos) = k \<and> \<not> edeleted (snd (kes ! pos))
            then (KVS_OK, db\<lparr>root := store_leaf (root db) k (Leaf kes'),
                             count := (count db + 2 ^ 64 - 1) mod 2 ^ 64\<rparr>)
            else (KVS_ERR_NOTFOUND, db))"
    unfolding kvs_delete_def k_def [symmetric] Let_def z(1) pos_def [symmetric] c kes'_def
    by (simp cong: if_cong)
  have k': "kes' = slot_delete k kes" if "pos < length kes \<and> fst (kes ! pos) = k"
    unfolding kes'_def using di that by (intro slot_delete_nth) simp_all
  have fin: "kvs_delete db key =
       (if bloom_maybe db k \<and> (\<exists>e. (k, e) \<in> set (chain_slots (root db)) \<and> \<not> edeleted e)
        then (KVS_OK, db\<lparr>root := R, count := (count db + 2 ^ 64 - 1) mod 2 ^ 64\<rparr>)
        else (KVS_ERR_NOTFOUND, db))"
  proof (cases "pos < length kes \<and> fst (kes ! pos) = k \<and> \<not> edeleted (snd (kes ! pos))")
    case True
    then have "kes' = slot_delete k kes" using k' by simp
    then have "store_leaf (root db) k (Leaf kes') = R" by (simp add: R_def)
    then show ?thesis unfolding d ex using True by simp
  next
    case False
    then have nf: "(pos < length kes \<and> fst (kes ! pos) = k \<and> \<not> edeleted (snd (kes ! pos))) = False"
      by simp
    show ?thesis unfolding d ex nf by simp
  qed
  have "bp_sorted R \<and> chain_slots R = slot_delete k (chain_slots (root db))"
    using r sd by simp
  then show ?thesis
    unfolding k_def [symmetric] using fin by blast
qed

section \<open>Failure of a put\<close>

lemma put_allocs_frame:
  "put_allocs db k v = (e, kp, vp, db3) \<Longrightarrow>
     db3 = db\<lparr>pool_pos := pool_pos db3\<rparr> \<and> pool_pos db \<le> pool_pos db3"
  by (auto simp: put_allocs_def pool_alloc_def Let_def split: prod.splits if_splits)

lemma put_allocs_entry_advance:
  "put_allocs db k v = (Some a, kp, vp, db3) \<Longrightarrow> pool_pos db + 32 \<le> pool_pos db3"
  by (auto simp: put_allocs_def pool_alloc_def sizeof_Entry_def Let_def split: prod.splits if_splits)

lemma kvs_put_raw_nomem:
  "put_allocs db k v = (e, kp, vp, db3) \<Longrightarrow> e = None \<or> kp = None \<or> vp = None \<Longrightarrow>
     kvs_put_raw db k v = (KVS_ERR_NOMEM, db3)"
  by (simp add: kvs_put_raw_def)

lemma kvs_put_raw_nomem_iff:
  "fst (kvs_put_raw db k v) = KVS_ERR_NOMEM \<longleftrightarrow>
     (case put_allocs db k v of (e, kp, vp, db3) \<Rightarrow> e = None \<or> kp = None \<or> vp = None)"
  by (simp add: kvs_put_raw_def Let_def split: prod.splits)

text \<open>
  Claim C4. For every store and every put: when one of the three arena allocations (entry
  record, key copy, value copy) fails, the put returns the out-of-memory error, and the
  root with all its nodes, keys and entries, the count and the Bloom filter (bit vector, bit
  count, set-bit counter) are what they were before the call.
\<close>

theorem put_nomem_leaves_tree_untouched:
  assumes "put_allocs db k v = (e, kp, vp, db3)"
    and "e = None \<or> kp = None \<or> vp = None"
  shows "fst (kvs_put_raw db k v) = KVS_ERR_NOMEM \<and>
         root (snd (kvs_put_raw db k v)) = root db \<and>
         count (snd (kvs_put_raw db k v)) = count db \<and>
         bloom (snd (kvs_put_raw db k v)) = bloom db \<and>
         bloom_bits (snd (kvs_put_raw db k v)) = bloom_bits db \<and>
         bloom_set_bits (snd (kvs_put_raw db k v)) = bloom_set_bits db \<and>
         pool_size (snd (kvs_put_raw db k v)) = pool_size db"
proof -
  have r: "kvs_put_raw db k v = (KVS_ERR_NOMEM, db3)"
    using assms by (rule kvs_put_raw_nomem)
  have f: "db3 = db\<lparr>pool_pos := pool_pos db3\<rparr>"
    using put_allocs_frame [OF assms(1)] by simp
  show ?thesis
    unfolding r by (subst f, simp)+
qed

text \<open>Witness: on a fresh store, a key of \<open>2 ^ 27\<close> bytes cannot be copied into the
  \<open>2 ^ 27\<close>-byte arena.\<close>

lemma open_big_key_allocs:
  "put_allocs kvs_open (replicate (2 ^ 27) 1) [] =
     (Some 0, None, Some 32, kvs_open\<lparr>pool_pos := 40\<rparr>)"
  by (simp add: put_allocs_def pool_alloc_def kvs_open_def sizeof_Entry_def
      KVS_DEFAULT_POOL_SIZE_def Let_def)

theorem put_nomem_leaves_tree_untouched_witness:
  "fst (kvs_put_raw kvs_open (replicate (2 ^ 27) 1) []) = KVS_ERR_NOMEM \<and>
   root (snd (kvs_put_raw kvs_open (replicate (2 ^ 27) 1) [])) = Leaf [] \<and>
   count (snd (kvs_put_raw kvs_open (replicate (2 ^ 27) 1) [])) = 0 \<and>
   bloom (snd (kvs_put_raw kvs_open (replicate (2 ^ 27) 1) [])) = {}"
  using put_nomem_leaves_tree_untouched [OF open_big_key_allocs]
  by (simp add: kvs_open_def)

text \<open>
  Claim C10. A put that fails with out-of-memory can still consume arena memory for good:
  when the allocation of the entry record succeeds and the allocation of the key or of the
  value fails, the put returns the error with the tree unchanged, but the arena position,
  which \<open>kvs_stats\<close> reports as \<open>memory_used\<close>, has advanced by at least the 32 bytes of the
  record; no later put or delete moves it back.
\<close>

lemma kvs_put_raw_pool_mono: "pool_pos db \<le> pool_pos (snd (kvs_put_raw db k v))"
proof -
  have bs: "pool_pos (bloom_set_bit d p) = pool_pos d" for d p
    by (simp add: bloom_set_bit_def)
  have ba: "pool_pos (bloom_add d x) = pool_pos d" for d x
    by (simp add: bloom_add_def Let_def bs)
  have fo: "pool_pos (fold (\<lambda>ke d. if \<not> edeleted (snd ke) then bloom_add d (fst ke) else d) xs d) = pool_pos d"
    for xs d
    by (induction xs arbitrary: d) (simp_all add: ba)
  have be: "pool_pos (bloom_check_expand d) = pool_pos d" for d
    by (simp add: bloom_check_expand_def bloom_expand_def bloom_rebuild_def Let_def fo)
  obtain e kp vp db3 where a: "put_allocs db k v = (e, kp, vp, db3)"
    by (cases "put_allocs db k v") auto
  show ?thesis
    using put_allocs_frame [OF a]
    by (simp add: kvs_put_raw_def a Let_def be ba)
qed

lemma kvs_delete_pool: "pool_pos (snd (kvs_delete db key)) = pool_pos db"
  by (simp add: kvs_delete_def Let_def)

theorem failed_put_keeps_arena_advance:
  assumes "put_allocs db k v = (Some a, kp, vp, db3)"
    and "kp = None \<or> vp = None"
  shows "fst (kvs_put_raw db k v) = KVS_ERR_NOMEM \<and>
         root (snd (kvs_put_raw db k v)) = root db \<and>
         kvs_stats_memory_used db + 32 \<le> kvs_stats_memory_used (snd (kvs_put_raw db k v)) \<and>
         kvs_stats_memory_used (snd (kvs_put_raw db k v))
           \<le> kvs_stats_memory_used (snd (kvs_put_raw (snd (kvs_put_raw db k v)) k' v')) \<and>
         kvs_stats_memory_used (snd (kvs_delete (snd (kvs_put_raw db k v)) k'))
           = kvs_stats_memory_used (snd (kvs_put_raw db k v))"
proof -
  have r: "kvs_put_raw db k v = (KVS_ERR_NOMEM, db3)"
    using assms by (intro kvs_put_raw_nomem [OF assms(1)]) simp
  have f: "db3 = db\<lparr>pool_pos := pool_pos db3\<rparr>"
    using put_allocs_frame [OF assms(1)] by simp
  have "root db3 = root db"
    by (subst f) simp
  then show ?thesis
    using put_allocs_entry_advance [OF assms(1)] kvs_put_raw_pool_mono [of db3 k' v']
      kvs_delete_pool [of db3 k']
    by (simp add: r kvs_stats_memory_used_def)
qed

theorem failed_put_keeps_arena_advance_witness:
  "fst (kvs_put_raw kvs_open (replicate (2 ^ 27) 1) []) = KVS_ERR_NOMEM \<and>
   kvs_stats_memory_used kvs_open = 0 \<and>
   32 \<le> kvs_stats_memory_used (snd (kvs_put_raw kvs_open (replicate (2 ^ 27) 1) []))"
  using failed_put_keeps_arena_advance [OF open_big_key_allocs]
  by (simp add: kvs_stats_memory_used_def kvs_open_def)

section \<open>Put\<close>

lemma insert_recursive_added:
  assumes "bp_sorted t" "ekey e = k"
  shows "fst (insert_recursive t k e) =
           (if \<exists>e'. (k, e') \<in> set (chain_slots t) \<and> \<not> edeleted e' then 0 else 1)"
  using assms
proof (induction t k e rule: insert_recursive.induct)
  case (1 kes k entry)
  have so: "sorted_wrt (<) (map fst kes)" using 1 by simp
  have "(\<exists>e'. (k, e') \<in> set kes \<and> \<not> edeleted e') \<Longrightarrow> k \<in> fst ` set kes" by force
  then show ?case
    unfolding insert_leaf_result [OF so 1(2)] by auto
next
  case (2 c0 kcs k entry)
  define pos where "pos = internal_find_pos (Internal c0 kcs) k"
  define child where "child = children (Internal c0 kcs) ! pos"
  have cs: "bp_sorted child"
    using internal_child_sorted [OF 2(2), of k] by (simp add: child_def pos_def)
  have ih: "fst (insert_recursive child k entry) =
           (if \<exists>e'. (k, e') \<in> set (chain_slots child) \<and> \<not> edeleted e' then 0 else 1)"
    unfolding child_def pos_def
    by (rule "2.IH" [OF refl refl _ 2(3)]) (use cs in \<open>simp add: child_def pos_def\<close>)
  obtain PRE POST where z: "chain_slots (Internal c0 kcs) = PRE @ chain_slots child @ POST"
    "\<forall>a\<in>set PRE. fst a < k" "\<forall>s\<in>set POST. k < fst s"
    using child_zone [OF 2(2) pos_def] unfolding child_def by blast
  have "k \<notin> fst ` set PRE" using z(2) by force
  moreover have "k \<notin> fst ` set POST" using z(3) by force
  ultimately have "(k, e') \<in> set (chain_slots (Internal c0 kcs)) \<longleftrightarrow> (k, e') \<in> set (chain_slots child)" for e'
    unfolding z(1) by force
  then have ex: "(\<exists>e'. (k, e') \<in> set (chain_slots (Internal c0 kcs)) \<and> \<not> edeleted e') \<longleftrightarrow>
                 (\<exists>e'. (k, e') \<in> set (chain_slots child) \<and> \<not> edeleted e')"
    by simp
  have "fst (insert_recursive (Internal c0 kcs) k entry) = fst (insert_recursive child k entry)"
    unfolding child_def pos_def
    by (subst insert_recursive.simps) (simp only: Let_def fst_conv if_distrib [of fst] if_cancel)
  then show ?case unfolding ex ih .
qed

lemma pool_alloc_fields:
  assumes "pool_alloc db n = (r, db')"
  shows "root db' = root db" "count db' = count db" "bloom db' = bloom db"
    "bloom_bits db' = bloom_bits db" "pool_size db' = pool_size db"
    "bloom_set_bits db' = bloom_set_bits db" "pool_pos db \<le> pool_pos db'"
    "pool_pos db \<le> pool_size db \<Longrightarrow> pool_pos db' \<le> pool_size db"
    "r \<noteq> None \<Longrightarrow> pool_pos db' = pool_pos db + ((n + 7) div 8) * 8"
  using assms by (auto simp: pool_alloc_def Let_def split: if_splits)

lemma put_allocs_unfold:
  assumes "put_allocs db k v = (e, kp, vp, db3)"
  obtains db1 db2 where "pool_alloc db sizeof_Entry = (e, db1)"
    "pool_alloc db1 (length k + 1) = (kp, db2)" "pool_alloc db2 (length v + 1) = (vp, db3)"
  using assms by (auto simp: put_allocs_def Let_def split: prod.splits)

lemma put_allocs_fields:
  assumes "put_allocs db k v = (e, kp, vp, db3)"
  shows "root db3 = root db" "count db3 = count db" "bloom db3 = bloom db"
    "bloom_bits db3 = bloom_bits db" "pool_size db3 = pool_size db"
    "bloom_set_bits db3 = bloom_set_bits db" "pool_pos db \<le> pool_pos db3"
proof -
  obtain db1 db2 where a: "pool_alloc db sizeof_Entry = (e, db1)"
    "pool_alloc db1 (length k + 1) = (kp, db2)" "pool_alloc db2 (length v + 1) = (vp, db3)"
    using assms by (rule put_allocs_unfold)
  note f1 = pool_alloc_fields [OF a(1)] and f2 = pool_alloc_fields [OF a(2)]
    and f3 = pool_alloc_fields [OF a(3)]
  show "root db3 = root db" using f1(1) f2(1) f3(1) by simp
  show "count db3 = count db" using f1(2) f2(2) f3(2) by simp
  show "bloom db3 = bloom db" using f1(3) f2(3) f3(3) by simp
  show "bloom_bits db3 = bloom_bits db" using f1(4) f2(4) f3(4) by simp
  show "pool_size db3 = pool_size db" using f1(5) f2(5) f3(5) by simp
  show "bloom_set_bits db3 = bloom_set_bits db" using f1(6) f2(6) f3(6) by simp
  show "pool_pos db \<le> pool_pos db3" using f1(7) f2(7) f3(7) by simp
qed

lemma put_allocs_bound:
  assumes "put_allocs db k v = (e, kp, vp, db3)" "pool_pos db \<le> pool_size db"
  shows "pool_pos db3 \<le> pool_size db"
proof -
  obtain db1 db2 where a: "pool_alloc db sizeof_Entry = (e, db1)"
    "pool_alloc db1 (length k + 1) = (kp, db2)" "pool_alloc db2 (length v + 1) = (vp, db3)"
    using assms(1) by (rule put_allocs_unfold)
  note f1 = pool_alloc_fields [OF a(1)] and f2 = pool_alloc_fields [OF a(2)]
    and f3 = pool_alloc_fields [OF a(3)]
  have "pool_pos db1 \<le> pool_size db1" using f1(8) [OF assms(2)] f1(5) by simp
  then have "pool_pos db2 \<le> pool_size db2" using f2(8) f2(5) by simp
  then have "pool_pos db3 \<le> pool_size db2" using f3(8) by simp
  then show ?thesis using f1(5) f2(5) by simp
qed

lemma put_allocs_ok:
  assumes "put_allocs db k v = (Some a, Some b, Some c, db3)"
  shows "pool_pos db3 = pool_pos db + slot_cost (k, \<lparr>ekey = k, evalue = v, edeleted = False\<rparr>)"
    and "pool_pos db3 \<le> pool_size db"
proof -
  obtain db1 db2 where a: "pool_alloc db sizeof_Entry = (Some a, db1)"
    "pool_alloc db1 (length k + 1) = (Some b, db2)" "pool_alloc db2 (length v + 1) = (Some c, db3)"
    using assms(1) by (rule put_allocs_unfold)
  note f1 = pool_alloc_fields [OF a(1)] and f2 = pool_alloc_fields [OF a(2)]
    and f3 = pool_alloc_fields [OF a(3)]
  show "pool_pos db3 = pool_pos db + slot_cost (k, \<lparr>ekey = k, evalue = v, edeleted = False\<rparr>)"
    using f1(9) f2(9) f3(9) by (simp add: slot_cost_def)
  have "pool_pos db3 \<le> pool_size db2"
    using a(3) by (auto simp: pool_alloc_def Let_def split: if_splits)
  then show "pool_pos db3 \<le> pool_size db" using f1(5) f2(5) by simp
qed

text \<open>A put whose allocations succeed, field by field.\<close>

lemma kvs_put_raw_ok:
  assumes "put_allocs db k v = (Some a, Some b, Some c, db3)"
  defines "res \<equiv> insert_recursive (root db) k \<lparr>ekey = k, evalue = v, edeleted = False\<rparr>"
  shows "fst (kvs_put_raw db k v) = KVS_OK"
    and "root (snd (kvs_put_raw db k v)) = res_root (snd res)"
    and "count (snd (kvs_put_raw db k v)) =
           (if fst res \<noteq> 0 then (count db + 1) mod 2 ^ 64 else count db)"
    and "pool_pos (snd (kvs_put_raw db k v)) =
           pool_pos db + slot_cost (k, \<lparr>ekey = k, evalue = v, edeleted = False\<rparr>)"
    and "pool_size (snd (kvs_put_raw db k v)) = pool_size db"
    and "pool_pos (snd (kvs_put_raw db k v)) \<le> pool_size db"
proof -
  note o = put_allocs_ok [OF assms(1)]
  note f3 = put_allocs_fields [OF assms(1)]
  have r3: "root db3 = root db" "count db3 = count db" "pool_size db3 = pool_size db"
    "pool_pos db3 = pool_pos db + slot_cost (k, \<lparr>ekey = k, evalue = v, edeleted = False\<rparr>)"
    using f3 o(1) by simp_all
  show "fst (kvs_put_raw db k v) = KVS_OK"
    by (simp add: kvs_put_raw_def assms(1) Let_def)
  show "root (snd (kvs_put_raw db k v)) = res_root (snd res)"
    by (simp add: kvs_put_raw_def assms(1) Let_def res_root_case r3 res_def)
  show "count (snd (kvs_put_raw db k v)) =
           (if fst res \<noteq> 0 then (count db + 1) mod 2 ^ 64 else count db)"
    by (simp add: kvs_put_raw_def assms(1) Let_def res_root_case r3 res_def)
  show pp: "pool_pos (snd (kvs_put_raw db k v)) =
           pool_pos db + slot_cost (k, \<lparr>ekey = k, evalue = v, edeleted = False\<rparr>)"
    by (simp add: kvs_put_raw_def assms(1) Let_def res_root_case r3 res_def)
  show "pool_size (snd (kvs_put_raw db k v)) = pool_size db"
    by (simp add: kvs_put_raw_def assms(1) Let_def res_root_case r3 res_def)
  show "pool_pos (snd (kvs_put_raw db k v)) \<le> pool_size db"
    unfolding pp using o(2) r3(4) by simp
qed

lemma kvs_put_raw_ok_covers:
  assumes "put_allocs db k v = (Some a, Some b, Some c, db3)" "bp_sorted (root db)"
    "bloom_covers db"
  shows "bloom_covers (snd (kvs_put_raw db k v))"
proof -
  define entry where "entry = \<lparr>ekey = k, evalue = v, edeleted = False\<rparr>"
  define res where "res = insert_recursive (root db) k entry"
  define db4 where "db4 = bloom_add db3 k"
  define db5 where "db5 = db4\<lparr>root := res_root (snd res)\<rparr>"
  define db6 where "db6 = (if fst res \<noteq> 0 then db5\<lparr>count := (count db5 + 1) mod 2 ^ 64\<rparr> else db5)"
  note f3 = put_allocs_fields [OF assms(1)]
  have r3: "root db3 = root db" "bloom db3 = bloom db" "bloom_bits db3 = bloom_bits db"
    using f3 by simp_all
  have ek: "ekey entry = k" by (simp add: entry_def)
  have sl: "chain_slots (res_root (snd res)) = slot_put k entry (chain_slots (root db))"
    using insert_recursive_sorted [OF assms(2) ek] res_root_sorted [of "snd res"]
    by (simp add: res_def)
  have b6: "bloom db6 = bloom db \<union> bloom_positions (bloom_bits db) k"
    "bloom_bits db6 = bloom_bits db" "root db6 = res_root (snd res)"
    by (simp_all add: db6_def db5_def db4_def bloom_add_bloom r3)
  have "bloom_covers db6"
    unfolding bloom_covers_def
  proof (intro ballI impI)
    fix ke assume ke: "ke \<in> set (chain_slots (root db6))" "live ke"
    show "bloom_maybe db6 (fst ke)"
    proof (cases "fst ke = k")
      case True
      then show ?thesis unfolding bloom_maybe_iff b6 by simp
    next
      case False
      then have "ke \<in> set (chain_slots (root db))"
        using ke(1) slot_put_other [of ke k entry] unfolding b6 sl by simp
      then have "bloom_maybe db (fst ke)" using assms(3) ke(2) by (simp add: bloom_covers_def)
      then show ?thesis unfolding bloom_maybe_iff b6 by auto
    qed
  qed
  moreover have "snd (kvs_put_raw db k v) =
      (if count db6 mod 1000 = 0 then bloom_check_expand db6 else db6)"
    by (simp add: kvs_put_raw_def assms(1) Let_def res_root_case r3 res_def entry_def
        db6_def db5_def db4_def)
  ultimately show ?thesis by (simp add: bloom_check_expand_covers)
qed

lemma slot_cost_ge: "32 * length xs \<le> sum_list (map slot_cost xs)"
  by (induction xs) (auto simp: slot_cost_def sizeof_Entry_def)

lemma pool_ok_count:
  assumes "pool_ok db"
  shows "length (chain_slots (root db)) \<le> 2 ^ 22"
proof -
  have "32 * length (chain_slots (root db)) \<le> 2 ^ 27"
    using assms slot_cost_ge [of "chain_slots (root db)"]
    by (simp add: pool_ok_def KVS_DEFAULT_POOL_SIZE_def)
  then show ?thesis by simp
qed

lemma put_fail_inv:
  assumes "kvs_inv db" "put_allocs db k v = (e, kp, vp, db3)"
  shows "kvs_inv db3"
proof -
  have S: "bp_sorted (root db)" and C: "count db = live_count (root db)"
    and P: "pool_ok db" and B: "bloom_covers db"
    using assms by (simp_all add: kvs_inv_def)
  note fr = put_allocs_fields [OF assms(2)]
  have "pool_pos db \<le> pool_size db" using P by (simp add: pool_ok_def)
  then have b: "pool_pos db3 \<le> pool_size db"
    by (rule put_allocs_bound [OF assms(2)])
  have "bloom_maybe db3 x = bloom_maybe db x" for x
    using fr(3,4) by (rule bloom_maybe_frame)
  then have "bloom_covers db3"
    using B by (simp add: bloom_covers_def fr(1))
  moreover have "sum_list (map slot_cost (chain_slots (root db3))) \<le> pool_pos db3"
    using P fr(7) by (simp add: pool_ok_def fr(1))
  then have "pool_ok db3"
    using P b by (simp add: pool_ok_def fr(5))
  ultimately show ?thesis
    using S C by (simp add: kvs_inv_def fr(1,2))
qed

lemma put_ok_slots:
  assumes "bp_sorted (root db)" "put_allocs db k v = (Some a, Some b, Some c, db3)"
  shows "bp_sorted (root (snd (kvs_put_raw db k v)))"
    and "chain_slots (root (snd (kvs_put_raw db k v))) =
           slot_put k \<lparr>ekey = k, evalue = v, edeleted = False\<rparr> (chain_slots (root db))"
    and "count (snd (kvs_put_raw db k v)) =
           (if \<exists>e'. (k, e') \<in> set (chain_slots (root db)) \<and> \<not> edeleted e' then count db
            else (count db + 1) mod 2 ^ 64)"
proof -
  define entry where "entry = \<lparr>ekey = k, evalue = v, edeleted = False\<rparr>"
  define res where "res = insert_recursive (root db) k entry"
  note ok = kvs_put_raw_ok [OF assms(2)]
  have ek: "ekey entry = k" by (simp add: entry_def)
  have ins: "res_sorted (snd res)" "res_slots (snd res) = slot_put k entry (chain_slots (root db))"
    using insert_recursive_sorted [OF assms(1) ek] by (simp_all add: res_def)
  have rt: "root (snd (kvs_put_raw db k v)) = res_root (snd res)"
    using ok(2) by (simp add: res_def entry_def)
  show "bp_sorted (root (snd (kvs_put_raw db k v)))"
    unfolding rt using res_root_sorted [OF ins(1)] by simp
  show "chain_slots (root (snd (kvs_put_raw db k v))) =
           slot_put k \<lparr>ekey = k, evalue = v, edeleted = False\<rparr> (chain_slots (root db))"
    unfolding rt using res_root_sorted [OF ins(1)] ins(2) by (simp add: entry_def)
  have ad: "fst res = (if \<exists>e'. (k, e') \<in> set (chain_slots (root db)) \<and> \<not> edeleted e' then 0 else 1)"
    unfolding res_def using assms(1) ek by (rule insert_recursive_added)
  have cnt: "count (snd (kvs_put_raw db k v)) = (if fst res \<noteq> 0 then (count db + 1) mod 2 ^ 64 else count db)"
    using ok(3) by (simp add: res_def entry_def)
  show "count (snd (kvs_put_raw db k v)) =
           (if \<exists>e'. (k, e') \<in> set (chain_slots (root db)) \<and> \<not> edeleted e' then count db
            else (count db + 1) mod 2 ^ 64)"
  proof (cases "\<exists>e'. (k, e') \<in> set (chain_slots (root db)) \<and> \<not> edeleted e'")
    case True
    then have "fst res = 0" using ad by simp
    then have "count (snd (kvs_put_raw db k v)) = count db" using cnt by simp
    then show ?thesis using True by (simp only: if_True)
  next
    case False
    then have "fst res = 1" using ad by simp
    then have "count (snd (kvs_put_raw db k v)) = (count db + 1) mod 2 ^ 64" using cnt by simp
    then show ?thesis using False by (simp only: if_False)
  qed
qed

lemma count_small:
  assumes "pool_ok db" "count db = live_count (root db)"
  shows "count db \<le> 2 ^ 22"
proof -
  have "live_count (root db) \<le> length (chain_slots (root db))"
    by (simp add: live_count_def)
  then show ?thesis using pool_ok_count [OF assms(1)] assms(2) by simp
qed

lemma put_ok_inv:
  assumes "kvs_inv db" "put_allocs db k v = (Some a, Some b, Some c, db3)"
  shows "kvs_inv (snd (kvs_put_raw db k v))"
proof -
  have S: "bp_sorted (root db)" and C: "count db = live_count (root db)"
    and P: "pool_ok db" and B: "bloom_covers db"
    using assms by (simp_all add: kvs_inv_def)
  define entry where "entry = \<lparr>ekey = k, evalue = v, edeleted = False\<rparr>"
  define db' where "db' = snd (kvs_put_raw db k v)"
  note ok = kvs_put_raw_ok [OF assms(2), folded db'_def entry_def]
  note sl = put_ok_slots [OF S assms(2), folded db'_def entry_def]
  have ek: "ekey entry = k" "\<not> edeleted entry" by (simp_all add: entry_def)
  have so: "sorted_wrt (<) (map fst (chain_slots (root db)))"
    using S by (rule chain_slots_sorted)
  have lc: "live_count (root db') = live_count (root db) +
       (if \<exists>e'. (k, e') \<in> set (chain_slots (root db)) \<and> \<not> edeleted e' then 0 else 1)"
    unfolding live_count_def sl(2) using so ek(2) by (rule slot_put_live_count)
  have "count db + 1 < 2 ^ 22 + 1 + 1" using count_small [OF P C] by simp
  also have "\<dots> < (2::nat) ^ 64" by simp
  finally have md: "(count db + 1) mod 2 ^ 64 = count db + 1" by simp
  have c': "count db' = live_count (root db')"
    unfolding sl(3) lc md using C by simp
  have "sum_list (map slot_cost (slot_put k entry (chain_slots (root db))))
        \<le> sum_list (map slot_cost (chain_slots (root db))) + slot_cost (k, entry)"
    using ek(1) chain_slots_ekey [OF S] by (intro slot_put_cost)
  moreover have "sum_list (map slot_cost (chain_slots (root db))) \<le> pool_pos db"
    using P by (simp add: pool_ok_def)
  ultimately have "sum_list (map slot_cost (chain_slots (root db'))) \<le> pool_pos db'"
    unfolding sl(2) ok(4) by simp
  moreover have "pool_pos db' \<le> pool_size db'" using ok(5,6) by simp
  moreover have "pool_size db' = KVS_DEFAULT_POOL_SIZE" using ok(5) P by (simp add: pool_ok_def)
  ultimately have p': "pool_ok db'" by (simp add: pool_ok_def)
  have b': "bloom_covers db'"
    unfolding db'_def using assms(2) S B by (rule kvs_put_raw_ok_covers)
  show ?thesis
    unfolding kvs_inv_def db'_def [symmetric] using sl(1) c' p' b' by simp
qed

lemma kvs_put_raw_inv:
  assumes "kvs_inv db"
  shows "kvs_inv (snd (kvs_put_raw db k v))"
proof -
  obtain e kp vp db3 where al: "put_allocs db k v = (e, kp, vp, db3)"
    by (cases "put_allocs db k v") auto
  show ?thesis
  proof (cases "e = None \<or> kp = None \<or> vp = None")
    case True
    have r: "kvs_put_raw db k v = (KVS_ERR_NOMEM, db3)"
      using al True by (rule kvs_put_raw_nomem)
    show ?thesis unfolding r using put_fail_inv [OF assms al] by simp
  next
    case False
    then obtain a b c where al': "put_allocs db k v = (Some a, Some b, Some c, db3)"
      using al by auto
    show ?thesis using assms al' by (rule put_ok_inv)
  qed
qed

section \<open>Delete and the invariant\<close>

lemma kvs_delete_inv:
  assumes "kvs_inv db"
  shows "kvs_inv (snd (kvs_delete db key))"
proof -
  have S: "bp_sorted (root db)" and C: "count db = live_count (root db)"
    and P: "pool_ok db" and B: "bloom_covers db"
    using assms by (simp_all add: kvs_inv_def)
  define k where "k = take (strlen key) key"
  obtain R where r: "bp_sorted R" "chain_slots R = slot_delete k (chain_slots (root db))"
    "kvs_delete db key =
       (if bloom_maybe db k \<and> (\<exists>e. (k, e) \<in> set (chain_slots (root db)) \<and> \<not> edeleted e)
        then (KVS_OK, db\<lparr>root := R, count := (count db + 2 ^ 64 - 1) mod 2 ^ 64\<rparr>)
        else (KVS_ERR_NOTFOUND, db))"
    using kvs_delete_slots [OF S, of key] unfolding k_def by blast
  show ?thesis
  proof (cases "bloom_maybe db k \<and> (\<exists>e. (k, e) \<in> set (chain_slots (root db)) \<and> \<not> edeleted e)")
    case False
    then have nf: "(bloom_maybe db k \<and> (\<exists>e. (k, e) \<in> set (chain_slots (root db)) \<and> \<not> edeleted e)) = False"
      by simp
    show ?thesis unfolding r(3) nf using assms by simp
  next
    case True
    then obtain e where e: "(k, e) \<in> set (chain_slots (root db))" "\<not> edeleted e" by blast
    define db' where "db' = db\<lparr>root := R, count := (count db + 2 ^ 64 - 1) mod 2 ^ 64\<rparr>"
    have res: "snd (kvs_delete db key) = db'" unfolding r(3) db'_def using True by simp
    have di: "distinct (map fst (chain_slots (root db)))"
      using chain_slots_sorted [OF S] strict_sorted_iff by blast
    have lc: "live_count R + 1 = live_count (root db)"
      unfolding live_count_def r(2) using di e by (rule slot_delete_live_count)
    have "live_count (root db) \<le> length (chain_slots (root db))"
      by (simp add: live_count_def)
    then have "count db \<le> 2 ^ 22" using pool_ok_count [OF P] C by simp
    then have "count db < 2 ^ 22 + 1" by simp
    also have "\<dots> < (2::nat) ^ 64" by simp
    finally have lt: "count db < 2 ^ 64" .
    have ge: "1 \<le> count db" using lc C by simp
    then have "count db + 2 ^ 64 - 1 = (count db - 1) + 2 ^ 64" by simp
    moreover have "count db - 1 < 2 ^ 64" using lt by simp
    ultimately have "(count db + 2 ^ 64 - 1) mod 2 ^ 64 = count db - 1"
      by (metis mod_add_self2 mod_less)
    then have c': "count db' = live_count (root db')"
      using lc C by (simp add: db'_def)
    have p': "pool_ok db'"
      using P by (simp add: pool_ok_def db'_def r(2))
    have b': "bloom_covers db'"
      unfolding bloom_covers_def
    proof (intro ballI impI)
      fix ke assume ke: "ke \<in> set (chain_slots (root db'))" "live ke"
      then have "ke \<in> set (chain_slots (root db))"
        using slot_delete_live [of ke k] by (simp add: db'_def r(2))
      then have "bloom_maybe db (fst ke)" using B ke(2) by (simp add: bloom_covers_def)
      then show "bloom_maybe db' (fst ke)" by (simp add: bloom_maybe_iff db'_def)
    qed
    show ?thesis
      unfolding res kvs_inv_def using c' p' b' r(1) by (simp add: db'_def)
  qed
qed

lemma kvs_open_inv: "kvs_inv kvs_open"
  by (simp add: kvs_inv_def kvs_open_def live_count_def pool_ok_def bloom_covers_def)

lemma reachable_inv: "reachable db \<Longrightarrow> kvs_inv db"
  by (induction rule: reachable.induct) (simp_all add: kvs_open_inv kvs_put_raw_inv kvs_delete_inv)

section \<open>Concrete stores\<close>

lemma put_a_eval:
  "kvs_put_raw kvs_open [97] [49] =
     (KVS_OK,
      \<lparr>pool_size = 134217728, pool_pos = 48,
       root = Leaf [([97], \<lparr>ekey = [97], evalue = [49], edeleted = False\<rparr>)],
       count = 1, bloom = {465724, 990292, 796972}, bloom_bits = 1048576,
       bloom_set_bits = 3\<rparr>)"
  by (simp add: kvs_put_raw_def put_allocs_def kvs_open_def pool_alloc_def sizeof_Entry_def
      KVS_DEFAULT_POOL_SIZE_def Let_def bloom_add_def bloom_set_bit_def fnv1a_def hash2_def
      hash3_def KVS_BLOOM_INIT_BITS_def leaf_find_pos_def num_keys_def bsearch_lt.simps
      ORDER_def bloom_check_expand_def insert_commute)

lemma strlen_a: "strlen [97] = 1"
  by (simp add: strlen_def)

lemma delete_a_eval:
  "kvs_delete (snd (kvs_put_raw kvs_open [97] [49])) [97] =
     (KVS_OK,
      \<lparr>pool_size = 134217728, pool_pos = 48,
       root = Leaf [([97], \<lparr>ekey = [97], evalue = [49], edeleted = True\<rparr>)],
       count = 0, bloom = {465724, 990292, 796972}, bloom_bits = 1048576,
       bloom_set_bits = 3\<rparr>)"
  unfolding put_a_eval snd_conv
  by (simp add: kvs_delete_def Let_def bloom_maybe_def bloom_get_bit_def fnv1a_def hash2_def
      hash3_def leaf_find_pos_def num_keys_def bsearch_lt.simps keycmp_def strlen_a)

lemma reachable_put_a: "reachable (snd (kvs_put_raw kvs_open [97] [49]))"
  by (intro reachable.intros)

lemma reachable_put_delete_a:
  "reachable (snd (kvs_delete (snd (kvs_put_raw kvs_open [97] [49])) [97]))"
  by (intro reachable.intros)

section \<open>Count\<close>

lemma kvs_foreach_live_count: "kvs_foreach db = live_count (root db)"
proof -
  have "live = (\<lambda>ke. \<not> edeleted (snd ke))" by (rule ext) (simp add: live_def)
  then show ?thesis by (simp add: kvs_foreach_def foreach_calls_def live_count_def)
qed

text \<open>
  Claim C8. In every store that a fresh store reaches by puts and deletes, \<open>count\<close> is the
  number of non-tombstoned entries reachable from the root, which is the number of entries
  that \<open>kvs_foreach\<close> visits; a further put or delete keeps the equality.
\<close>

theorem count_is_live_entries:
  assumes "reachable db"
  shows "count db = live_count (root db) \<and> count db = kvs_foreach db \<and>
         count (snd (kvs_put_raw db k v)) = kvs_foreach (snd (kvs_put_raw db k v)) \<and>
         count (snd (kvs_delete db key)) = kvs_foreach (snd (kvs_delete db key))"
proof -
  have i: "kvs_inv db" using assms by (rule reachable_inv)
  have "kvs_inv (snd (kvs_put_raw db k v))" using i by (rule kvs_put_raw_inv)
  moreover have "kvs_inv (snd (kvs_delete db key))" using i by (rule kvs_delete_inv)
  ultimately show ?thesis
    using i by (simp add: kvs_inv_def kvs_foreach_live_count)
qed

theorem count_is_live_entries_witness:
  "reachable (snd (kvs_delete (snd (kvs_put_raw kvs_open [97] [49])) [97])) \<and>
   count (snd (kvs_delete (snd (kvs_put_raw kvs_open [97] [49])) [97])) = 0 \<and>
   kvs_foreach (snd (kvs_delete (snd (kvs_put_raw kvs_open [97] [49])) [97])) = 0"
proof -
  have r: "reachable (snd (kvs_delete (snd (kvs_put_raw kvs_open [97] [49])) [97]))"
    by (rule reachable_put_delete_a)
  have c: "count (snd (kvs_delete (snd (kvs_put_raw kvs_open [97] [49])) [97])) =
           kvs_foreach (snd (kvs_delete (snd (kvs_put_raw kvs_open [97] [49])) [97]))"
    using count_is_live_entries [OF r, of "[]" "[]" "[]"] by blast
  have e: "count (snd (kvs_delete (snd (kvs_put_raw kvs_open [97] [49])) [97])) = 0"
    by (simp add: delete_a_eval)
  show ?thesis using r c e by metis
qed

section \<open>Order of the keys\<close>

lemma bp_sorted_keys_increasing: "bp_sorted t \<Longrightarrow> keys_increasing t"
proof (induction t rule: bp_sorted.induct)
  case (1 kes)
  then show ?case by simp
next
  case (2 c0 kcs)
  then show ?case by simp
qed

text \<open>
  Claim C9. In every store that a fresh store reaches by puts and deletes (a get changes
  nothing), the key array of every node, leaf or internal, is strictly increasing under
  \<open>keycmp\<close>, and \<open>keycmp\<close> is the lexicographic comparison of the bytes in which a proper
  prefix is the smaller key (\<open>keycmp_eq\<close>, in the order of \<open>List_Lexorder\<close>); a further put,
  with whatever splits it makes, or delete keeps the order.
\<close>

theorem node_keys_strictly_increasing:
  assumes "reachable db"
  shows "keys_increasing (root db) \<and>
         keys_increasing (root (snd (kvs_put_raw db k v))) \<and>
         keys_increasing (root (snd (kvs_delete db key))) \<and>
         (\<forall>a b. (keycmp a b < 0) = (a < b))"
proof -
  have i: "kvs_inv db" using assms by (rule reachable_inv)
  have "kvs_inv (snd (kvs_put_raw db k v))" using i by (rule kvs_put_raw_inv)
  moreover have "kvs_inv (snd (kvs_delete db key))" using i by (rule kvs_delete_inv)
  ultimately show ?thesis
    using i by (simp add: kvs_inv_def bp_sorted_keys_increasing)
qed

section \<open>Bloom filter and live keys\<close>




section \<open>Put, delete, put, get\<close>

lemma pool_alloc_none_iff:
  "fst (pool_alloc db n) = None \<longleftrightarrow> pool_size db < pool_pos db + ((n + 7) div 8) * 8"
  by (simp add: pool_alloc_def Let_def)

lemma put_ok_allocs:
  assumes "fst (kvs_put_raw db k v) = KVS_OK"
  shows "\<exists>a b c db3. put_allocs db k v = (Some a, Some b, Some c, db3)"
proof -
  obtain e kp vp db3 where al: "put_allocs db k v = (e, kp, vp, db3)"
    by (cases "put_allocs db k v") auto
  have "\<not> (e = None \<or> kp = None \<or> vp = None)"
  proof
    assume "e = None \<or> kp = None \<or> vp = None"
    then have "kvs_put_raw db k v = (KVS_ERR_NOMEM, db3)" by (rule kvs_put_raw_nomem [OF al])
    then show False using assms by simp
  qed
  then show ?thesis using al by auto
qed

lemma put_succeeds_iff:
  "fst (kvs_put_raw db k v) = KVS_OK \<longleftrightarrow>
     pool_pos db + slot_cost (k, \<lparr>ekey = k, evalue = v, edeleted = False\<rparr>) \<le> pool_size db"
proof
  assume "fst (kvs_put_raw db k v) = KVS_OK"
  then obtain a b c db3 where al: "put_allocs db k v = (Some a, Some b, Some c, db3)"
    using put_ok_allocs by blast
  show "pool_pos db + slot_cost (k, \<lparr>ekey = k, evalue = v, edeleted = False\<rparr>) \<le> pool_size db"
    using put_allocs_ok [OF al] by simp
next
  assume le: "pool_pos db + slot_cost (k, \<lparr>ekey = k, evalue = v, edeleted = False\<rparr>) \<le> pool_size db"
  obtain e kp vp db3 where al: "put_allocs db k v = (e, kp, vp, db3)"
    by (cases "put_allocs db k v") auto
  obtain db1 db2 where a: "pool_alloc db sizeof_Entry = (e, db1)"
    "pool_alloc db1 (length k + 1) = (kp, db2)" "pool_alloc db2 (length v + 1) = (vp, db3)"
    using al by (rule put_allocs_unfold)
  have e: "e \<noteq> None"
    using pool_alloc_none_iff [of db sizeof_Entry] a(1) le by (simp add: slot_cost_def)
  note f1 = pool_alloc_fields [OF a(1)]
  have p1: "pool_pos db1 = pool_pos db + ((sizeof_Entry + 7) div 8) * 8" using f1(9) e by simp
  have k: "kp \<noteq> None"
    using pool_alloc_none_iff [of db1 "length k + 1"] a(2) le p1 f1(5) by (simp add: slot_cost_def)
  note f2 = pool_alloc_fields [OF a(2)]
  have p2: "pool_pos db2 = pool_pos db1 + ((length k + 1 + 7) div 8) * 8" using f2(9) k by simp
  have v: "vp \<noteq> None"
    using pool_alloc_none_iff [of db2 "length v + 1"] a(3) le p1 p2 f1(5) f2(5)
    by (simp add: slot_cost_def)
  show "fst (kvs_put_raw db k v) = KVS_OK"
    using e k v by (simp add: kvs_put_raw_def al Let_def)
qed

lemma slot_put_has_live:
  "\<not> edeleted e \<Longrightarrow> \<exists>e'. (k, e') \<in> set (slot_put k e xs) \<and> \<not> edeleted e'"
proof (induction xs)
  case Nil
  then show ?case by auto
next
  case (Cons a xs)
  show ?case
  proof (cases "fst a < k")
    case True
    then show ?thesis using Cons by auto
  next
    case False
    show ?thesis
    proof (cases "fst a = k")
      case True
      then show ?thesis using Cons.prems by (cases "edeleted (snd a)") auto
    next
      case ne: False
      then show ?thesis using False Cons.prems by auto
    qed
  qed
qed

lemma slot_delete_dead:
  "(k, e') \<in> set (slot_delete k xs) \<Longrightarrow> edeleted e'"
  by (auto simp: slot_delete_def split: if_splits)

lemma slot_put_after_delete:
  assumes "sorted_wrt (<) (map fst xs)" "k \<in> fst ` set xs"
  shows "slot_put k e (slot_delete k xs) = map (\<lambda>ke. if fst ke = k then (k, e) else ke) xs"
  using assms
proof (induction xs)
  case Nil
  then show ?case by simp
next
  case (Cons a xs)
  have gt: "\<forall>x\<in>set xs. fst a < fst x" using Cons.prems(1) by simp
  have so: "sorted_wrt (<) (map fst xs)" using Cons.prems(1) by simp
  show ?case
  proof (cases "fst a = k")
    case True
    then have ab: "k \<notin> fst ` set xs" using gt by auto
    have "slot_delete k xs = xs" using ab by (rule slot_delete_absent)
    moreover have "map (\<lambda>ke. if fst ke = k then (k, e) else ke) xs = xs"
      using ab by (intro map_idI) auto
    ultimately show ?thesis using True by (simp add: slot_delete_def)
  next
    case False
    then have m: "k \<in> fst ` set xs" using Cons.prems(2) by auto
    then obtain x where "x \<in> set xs" "fst x = k" by auto
    then have "fst a < k" using gt by auto
    then show ?thesis using False Cons.IH [OF so m] by (simp add: slot_delete_def)
  qed
qed


lemma put_delete_put_steps:
  assumes inv: "kvs_inv db" and k: "take (strlen key) key = k"
    and p1: "fst (kvs_put_raw db k v1) = KVS_OK"
    and p2: "fst (kvs_put_raw (snd (kvs_delete (snd (kvs_put_raw db k v1)) key)) k v2) = KVS_OK"
    and d1: "d1 = snd (kvs_put_raw db k v1)"
    and d2: "d2 = snd (kvs_delete d1 key)"
    and d3: "d3 = snd (kvs_put_raw d2 k v2)"
  shows "kvs_get_raw d1 k = Some v1 \<and>
         fst (kvs_delete d1 key) = KVS_OK \<and>
         chain_slots (root d2) =
           map (\<lambda>ke. if fst ke = k then (fst ke, (snd ke)\<lparr>edeleted := True\<rparr>) else ke)
               (chain_slots (root d1)) \<and>
         kvs_get_raw d2 k = None \<and>
         count d2 + 1 = count d1 \<and>
         chain_slots (root d3) =
           map (\<lambda>ke. if fst ke = k then (k, \<lparr>ekey = k, evalue = v2, edeleted = False\<rparr>) else ke)
               (chain_slots (root d1)) \<and>
         kvs_get_raw d3 k = Some v2 \<and>
         count d3 = count d2 + 1"
proof -
  define e1 where "e1 = \<lparr>ekey = k, evalue = v1, edeleted = False\<rparr>"
  define e2 where "e2 = \<lparr>ekey = k, evalue = v2, edeleted = False\<rparr>"
  have S0: "bp_sorted (root db)" using inv by (simp add: kvs_inv_def)
  obtain a b c db3 where al1: "put_allocs db k v1 = (Some a, Some b, Some c, db3)"
    using put_ok_allocs [OF p1] by blast
  note s1 = put_ok_slots [OF S0 al1, folded d1 e1_def]
  have i1: "kvs_inv d1" unfolding d1 using inv by (rule kvs_put_raw_inv)
  have so0: "sorted_wrt (<) (map fst (chain_slots (root db)))"
    using S0 by (rule chain_slots_sorted)
  have so1: "sorted_wrt (<) (map fst (chain_slots (root d1)))"
    using s1(1) by (rule chain_slots_sorted)
  obtain e where e: "(k, e) \<in> set (chain_slots (root d1))" "\<not> edeleted e"
    unfolding s1(2) using slot_put_has_live [of e1 k "chain_slots (root db)"]
    by (auto simp: e1_def)
  have b1: "bloom_maybe d1 k"
    using i1 e by (force simp: kvs_inv_def bloom_covers_def live_def)
  have "\<exists>e'. map_of (chain_slots (root d1)) k = Some e' \<and> \<not> edeleted e' \<and> evalue e' = v1"
    unfolding s1(2) slot_put_map_of [OF so0]
    by (auto simp: e1_def split: option.splits)
  then have g1: "kvs_get_raw d1 k = Some v1"
    unfolding kvs_get_raw_map_of [OF s1(1)] using b1 by auto
  have c1: "bloom_maybe d1 (take (strlen key) key) \<and>
      (\<exists>e. (take (strlen key) key, e) \<in> set (chain_slots (root d1)) \<and> \<not> edeleted e)"
    unfolding k using e b1 by blast
  obtain R where r: "bp_sorted R" "chain_slots R = slot_delete k (chain_slots (root d1))"
    "kvs_delete d1 key = (KVS_OK, d1\<lparr>root := R, count := (count d1 + 2 ^ 64 - 1) mod 2 ^ 64\<rparr>)"
    using kvs_delete_slots [OF s1(1), of key] c1 unfolding k by auto
  have dok: "fst (kvs_delete d1 key) = KVS_OK" using r(3) by simp
  have r2: "root d2 = R" unfolding d2 r(3) by simp
  have i2: "kvs_inv d2" unfolding d2 using i1 by (rule kvs_delete_inv)
  have S2: "bp_sorted (root d2)" using r(1) r2 by simp
  have sl2: "chain_slots (root d2) = slot_delete k (chain_slots (root d1))"
    using r(2) r2 by simp
  have dead: "\<not> (\<exists>e'. (k, e') \<in> set (chain_slots (root d2)) \<and> \<not> edeleted e')"
    unfolding sl2 using slot_delete_dead by blast
  have p2': "fst (kvs_put_raw d2 k v2) = KVS_OK" using p2 by (simp add: d2 d1)
  obtain a' b' c' db3' where al2: "put_allocs d2 k v2 = (Some a', Some b', Some c', db3')"
    using put_ok_allocs [OF p2'] by blast
  note s3 = put_ok_slots [OF S2 al2, folded d3 e2_def]
  have i3: "kvs_inv d3" unfolding d3 using i2 by (rule kvs_put_raw_inv)
  have so2: "sorted_wrt (<) (map fst (chain_slots (root d2)))"
    using S2 by (rule chain_slots_sorted)
  have m2: "map_of (chain_slots (root d2)) k = None \<or>
            (\<exists>e'. map_of (chain_slots (root d2)) k = Some e' \<and> edeleted e')"
  proof (cases "map_of (chain_slots (root d2)) k")
    case None
    then show ?thesis by simp
  next
    case (Some e')
    then have "(k, e') \<in> set (chain_slots (root d2))" by (rule map_of_SomeD)
    then show ?thesis using dead Some by blast
  qed
  have g2: "kvs_get_raw d2 k = None"
    unfolding kvs_get_raw_map_of [OF S2] using m2 by auto
  have "map_of (chain_slots (root d3)) k = Some e2"
    unfolding s3(2) slot_put_map_of [OF so2] using m2 by auto
  then have m3: "map_of (chain_slots (root d3)) k = Some e2"
    and in3: "(k, e2) \<in> set (chain_slots (root d3))"
    by (simp_all add: map_of_SomeD)
  have "bloom_maybe d3 k"
    using i3 in3 by (force simp: kvs_inv_def bloom_covers_def live_def e2_def)
  then have g: "kvs_get_raw d3 k = Some v2"
    unfolding kvs_get_raw_map_of [OF s3(1)] m3 by (simp add: e2_def)
  have lc3: "live_count (root d3) = live_count (root d2) + 1"
    unfolding live_count_def s3(2) using dead
    by (simp add: slot_put_live_count [OF so2] e2_def)
  have "distinct (map fst (chain_slots (root d1)))"
    using so1 strict_sorted_iff by blast
  then have lc2: "live_count (root d2) + 1 = live_count (root d1)"
    unfolding live_count_def sl2 using e by (rule slot_delete_live_count)
  have c2: "count d2 + 1 = count d1" using i1 i2 lc2 by (simp add: kvs_inv_def)
  have c3: "count d3 = count d2 + 1" using i2 i3 lc3 by (simp add: kvs_inv_def)
  have kin: "k \<in> fst ` set (chain_slots (root d1))" using e(1) by force
  have sl3: "chain_slots (root d3) =
               map (\<lambda>ke. if fst ke = k then (k, e2) else ke) (chain_slots (root d1))"
    unfolding s3(2) sl2 using so1 kin by (rule slot_put_after_delete)
  show ?thesis
    using g1 dok sl2 g2 c2 sl3 g c3 unfolding slot_delete_def e2_def by simp
qed

text \<open>
  Claim C7. For every store reached from a fresh store by puts and deletes and every key
  \<open>K\<close>, when \<open>put(K, v1)\<close> and, after \<open>delete(K)\<close>, \<open>put(K, v2)\<close> return OK (the arena has
  room): after the first put \<open>get(K)\<close> returns \<open>v1\<close>; the delete returns OK, sets the
  tombstone flag of the entry of \<open>K\<close> and leaves every other slot as it is, \<open>get(K)\<close> then
  finds nothing and \<open>count\<close> is one less; the second put puts its entry into the slot of
  the tombstoned one and leaves every other slot as it is, so the tree has the slots that
  it had after the first put, \<open>get(K)\<close> returns \<open>v2\<close>, and \<open>count\<close> is one more than after
  the delete, which is what it was right after the first put.
\<close>

theorem put_delete_put_get:
  assumes "reachable db"
    and "fst (kvs_put db K v1) = KVS_OK"
    and "fst (kvs_put (snd (kvs_delete (snd (kvs_put db K v1)) K)) K v2) = KVS_OK"
  shows "let k = take (strlen K) K;
             d1 = snd (kvs_put db K v1);
             d2 = snd (kvs_delete d1 K);
             d3 = snd (kvs_put d2 K v2)
         in kvs_get d1 K = Some (take (strlen v1) v1) \<and>
            fst (kvs_delete d1 K) = KVS_OK \<and>
            chain_slots (root d2) =
              map (\<lambda>ke. if fst ke = k then (fst ke, (snd ke)\<lparr>edeleted := True\<rparr>) else ke)
                  (chain_slots (root d1)) \<and>
            kvs_get d2 K = None \<and>
            count d2 + 1 = count d1 \<and>
            chain_slots (root d3) =
              map (\<lambda>ke. if fst ke = k
                         then (k, \<lparr>ekey = k, evalue = take (strlen v2) v2, edeleted = False\<rparr>)
                         else ke)
                  (chain_slots (root d1)) \<and>
            kvs_get d3 K = Some (take (strlen v2) v2) \<and>
            count d3 = count d2 + 1 \<and>
            count d3 = count d1"
proof -
  have i: "kvs_inv db" using assms(1) by (rule reachable_inv)
  have p1: "fst (kvs_put_raw db (take (strlen K) K) (take (strlen v1) v1)) = KVS_OK"
    using assms(2) by (simp add: kvs_put_def)
  have p2: "fst (kvs_put_raw
                  (snd (kvs_delete (snd (kvs_put_raw db (take (strlen K) K) (take (strlen v1) v1))) K))
                  (take (strlen K) K) (take (strlen v2) v2)) = KVS_OK"
    using assms(3) by (simp add: kvs_put_def)
  show ?thesis
    unfolding Let_def kvs_put_def kvs_get_def
    using put_delete_put_steps [OF i refl p1 p2 refl refl refl] by simp
qed

theorem put_delete_put_get_witness:
  "reachable kvs_open \<and>
   fst (kvs_put kvs_open [97] [49]) = KVS_OK \<and>
   fst (kvs_put (snd (kvs_delete (snd (kvs_put kvs_open [97] [49])) [97])) [97] [50]) = KVS_OK \<and>
   count (snd (kvs_put kvs_open [97] [49])) = 1 \<and>
   chain_slots (root (snd (kvs_delete (snd (kvs_put kvs_open [97] [49])) [97]))) =
     [([97], \<lparr>ekey = [97], evalue = [49], edeleted = True\<rparr>)] \<and>
   kvs_get (snd (kvs_delete (snd (kvs_put kvs_open [97] [49])) [97])) [97] = None \<and>
   count (snd (kvs_delete (snd (kvs_put kvs_open [97] [49])) [97])) = 0 \<and>
   chain_slots (root (snd (kvs_put (snd (kvs_delete (snd (kvs_put kvs_open [97] [49])) [97]))
                             [97] [50]))) =
     [([97], \<lparr>ekey = [97], evalue = [50], edeleted = False\<rparr>)] \<and>
   kvs_get (snd (kvs_put (snd (kvs_delete (snd (kvs_put kvs_open [97] [49])) [97])) [97] [50])) [97]
     = Some [50] \<and>
   count (snd (kvs_put (snd (kvs_delete (snd (kvs_put kvs_open [97] [49])) [97])) [97] [50])) = 1"
proof -
  have s: "strlen [49] = 1" "strlen [50] = 1" by (simp_all add: strlen_def)
  have pa: "kvs_put kvs_open [97] [49] = kvs_put_raw kvs_open [97] [49]"
    by (simp add: kvs_put_def strlen_a s)
  have h1: "fst (kvs_put kvs_open [97] [49]) = KVS_OK"
    unfolding pa by (simp add: put_a_eval)
  have h2: "fst (kvs_put (snd (kvs_delete (snd (kvs_put kvs_open [97] [49])) [97])) [97] [50]) = KVS_OK"
    unfolding pa kvs_put_def put_succeeds_iff
    by (simp add: delete_a_eval slot_cost_def sizeof_Entry_def strlen_a s)
  have c1: "count (snd (kvs_put kvs_open [97] [49])) = 1"
    unfolding pa by (simp add: put_a_eval)
  have s1: "chain_slots (root (snd (kvs_put kvs_open [97] [49]))) =
            [([97], \<lparr>ekey = [97], evalue = [49], edeleted = False\<rparr>)]"
    unfolding pa by (simp add: put_a_eval)
  from put_delete_put_get [OF reach_open h1 h2] show ?thesis
    unfolding Let_def s1 c1 using h1 h2 c1 by (simp add: reach_open s strlen_a)
qed

section \<open>Growth of the filter\<close>

lemma bloom_set_bit_counted: "bloom_counted d \<Longrightarrow> bloom_counted (bloom_set_bit d p)"
  by (auto simp: bloom_counted_def bloom_set_bit_def)

lemma bloom_add_counted: "bloom_counted d \<Longrightarrow> bloom_counted (bloom_add d k)"
  by (simp add: bloom_add_def Let_def bloom_set_bit_counted)

lemma rebuild_fold_counted:
  "bloom_counted d \<Longrightarrow>
   bloom_counted (fold (\<lambda>ke d. if \<not> edeleted (snd ke) then bloom_add d (fst ke) else d) xs d)"
  by (induction xs arbitrary: d) (simp_all add: bloom_add_counted)

lemma bloom_rebuild_counted: "bloom_counted d \<Longrightarrow> bloom_counted (bloom_rebuild d)"
  by (simp add: bloom_rebuild_def rebuild_fold_counted)

lemma bloom_check_expand_bits:
  "bloom_bits (bloom_check_expand d) =
     (if bloom_bits d \<le> 2 * bloom_set_bits d \<and> bloom_bits d < KVS_BLOOM_MAX_BITS
      then min (4 * bloom_bits d) KVS_BLOOM_MAX_BITS else bloom_bits d)"
  by (simp add: bloom_check_expand_def bloom_expand_def Let_def min_def mult.commute)

lemma bloom_check_expand_grown:
  assumes "bloom_bits (bloom_check_expand d) \<noteq> bloom_bits d"
  shows "bloom_check_expand d =
           bloom_rebuild (d\<lparr>bloom := {}, bloom_bits := min (4 * bloom_bits d) KVS_BLOOM_MAX_BITS,
                            bloom_set_bits := 0\<rparr>)"
proof -
  have g: "bloom_bits d \<le> 2 * bloom_set_bits d \<and> bloom_bits d < KVS_BLOOM_MAX_BITS"
    using assms unfolding bloom_check_expand_bits by (simp split: if_splits)
  then have n: "min (4 * bloom_bits d) KVS_BLOOM_MAX_BITS \<noteq> bloom_bits d"
    using assms unfolding bloom_check_expand_bits by simp
  have m: "(if KVS_BLOOM_MAX_BITS < bloom_bits d * 4 then KVS_BLOOM_MAX_BITS else bloom_bits d * 4) =
           min (4 * bloom_bits d) KVS_BLOOM_MAX_BITS"
    by (simp add: min_def mult.commute)
  show ?thesis
    using g n unfolding bloom_check_expand_def bloom_expand_def Let_def m by simp
qed

lemma bloom_check_expand_same:
  assumes "bloom_bits (bloom_check_expand d) = bloom_bits d"
  shows "bloom_check_expand d = d"
proof -
  have m: "(if KVS_BLOOM_MAX_BITS < bloom_bits d * 4 then KVS_BLOOM_MAX_BITS else bloom_bits d * 4) =
           min (4 * bloom_bits d) KVS_BLOOM_MAX_BITS"
    by (simp add: min_def mult.commute)
  show ?thesis
  proof (cases "bloom_bits d \<le> 2 * bloom_set_bits d \<and> bloom_bits d < KVS_BLOOM_MAX_BITS")
    case True
    then have "min (4 * bloom_bits d) KVS_BLOOM_MAX_BITS = bloom_bits d"
      using assms unfolding bloom_check_expand_bits by simp
    then show ?thesis
      using True unfolding bloom_check_expand_def bloom_expand_def Let_def m by simp
  next
    case False
    then show ?thesis unfolding bloom_check_expand_def by auto
  qed
qed

lemma bloom_check_expand_bloom:
  "bloom (bloom_check_expand d) =
     (if bloom_bits (bloom_check_expand d) \<noteq> bloom_bits d
      then (\<Union>ke\<in>{ke \<in> set (chain_slots (root (bloom_check_expand d))). live ke}.
              bloom_positions (bloom_bits (bloom_check_expand d)) (fst ke))
      else bloom d)"
proof (cases "bloom_bits (bloom_check_expand d) = bloom_bits d")
  case True
  then show ?thesis using bloom_check_expand_same [OF True] by simp
next
  case False
  define d0 where "d0 = d\<lparr>bloom := {}, bloom_bits := min (4 * bloom_bits d) KVS_BLOOM_MAX_BITS,
                            bloom_set_bits := 0\<rparr>"
  have e: "bloom_check_expand d = bloom_rebuild d0"
    unfolding d0_def using False by (rule bloom_check_expand_grown)
  have "bloom (bloom_rebuild d0) =
        (\<Union>ke\<in>{ke \<in> set (chain_slots (root (bloom_rebuild d0))). live ke}.
              bloom_positions (bloom_bits (bloom_rebuild d0)) (fst ke))"
    unfolding bloom_rebuild_bloom [of d0] bloom_rebuild_frame by (simp add: d0_def)
  then show ?thesis using False unfolding e by simp
qed

lemma bloom_check_expand_counted:
  assumes "bloom_counted d"
  shows "bloom_counted (bloom_check_expand d)"
proof (cases "bloom_bits (bloom_check_expand d) = bloom_bits d")
  case True
  then show ?thesis using bloom_check_expand_same [OF True] assms by simp
next
  case False
  have "bloom_counted (d\<lparr>bloom := {}, bloom_bits := min (4 * bloom_bits d) KVS_BLOOM_MAX_BITS,
                            bloom_set_bits := 0\<rparr>)"
    by (simp add: bloom_counted_def)
  then show ?thesis
    unfolding bloom_check_expand_grown [OF False] by (rule bloom_rebuild_counted)
qed

lemma bloom_set_bit_counter:
  "bloom_set_bits (bloom_set_bit d p) =
     (if p \<in> bloom d then bloom_set_bits d else bloom_set_bits d + 1)"
  by (simp add: bloom_set_bit_def)

lemma bloom_add_counter_cong:
  assumes "bloom d' = bloom d" "bloom_bits d' = bloom_bits d" "bloom_set_bits d' = bloom_set_bits d"
  shows "bloom_set_bits (bloom_add d' k) = bloom_set_bits (bloom_add d k)"
  using assms by (simp add: bloom_add_def Let_def bloom_set_bit_counter)

lemma bloom_add_counter_mono: "bloom_set_bits d \<le> bloom_set_bits (bloom_add d k)"
  by (simp add: bloom_add_def Let_def bloom_set_bit_counter)

text \<open>A put whose allocations succeed: the filter before the growth check.\<close>

lemma kvs_put_raw_shape:
  assumes "put_allocs db k v = (Some a, Some b, Some c, db3)"
  shows "\<exists>d6. snd (kvs_put_raw db k v) =
                (if count d6 mod 1000 = 0 then bloom_check_expand d6 else d6) \<and>
              bloom d6 = bloom db \<union> bloom_positions (bloom_bits db) k \<and>
              bloom_bits d6 = bloom_bits db \<and>
              bloom_set_bits d6 = bloom_set_bits (bloom_add db k) \<and>
              root d6 = root (snd (kvs_put_raw db k v)) \<and>
              count d6 = count (snd (kvs_put_raw db k v))"
proof -
  define entry where "entry = \<lparr>ekey = k, evalue = v, edeleted = False\<rparr>"
  define res where "res = insert_recursive (root db) k entry"
  define db4 where "db4 = bloom_add db3 k"
  define db5 where "db5 = db4\<lparr>root := res_root (snd res)\<rparr>"
  define db6 where "db6 = (if fst res \<noteq> 0 then db5\<lparr>count := (count db5 + 1) mod 2 ^ 64\<rparr> else db5)"
  note f3 = put_allocs_fields [OF assms(1)]
  have r3: "root db3 = root db" "bloom db3 = bloom db" "bloom_bits db3 = bloom_bits db"
    using f3 by simp_all
  have sb: "bloom_set_bits db4 = bloom_set_bits (bloom_add db k)"
    unfolding db4_def using f3(3) f3(4) f3(6) by (rule bloom_add_counter_cong)
  have b6: "bloom db6 = bloom db \<union> bloom_positions (bloom_bits db) k"
    "bloom_bits db6 = bloom_bits db" "bloom_set_bits db6 = bloom_set_bits (bloom_add db k)"
    using sb by (simp_all add: db6_def db5_def db4_def bloom_add_bloom r3)
  have e: "snd (kvs_put_raw db k v) =
      (if count db6 mod 1000 = 0 then bloom_check_expand db6 else db6)"
    by (simp add: kvs_put_raw_def assms(1) Let_def res_root_case r3 res_def entry_def
        db6_def db5_def db4_def)
  have "root db6 = root (snd (kvs_put_raw db k v))" "count db6 = count (snd (kvs_put_raw db k v))"
    unfolding e by simp_all
  then show ?thesis using e b6 by blast
qed

text \<open>The filter after a put.\<close>

lemma put_bloom_fields:
  "bloom_bits (snd (kvs_put_raw db k v)) =
     (if fst (kvs_put_raw db k v) = KVS_OK \<and> count (snd (kvs_put_raw db k v)) mod 1000 = 0 \<and>
         bloom_bits db \<le> 2 * bloom_set_bits (bloom_add db k) \<and>
         bloom_bits db < KVS_BLOOM_MAX_BITS
      then min (4 * bloom_bits db) KVS_BLOOM_MAX_BITS else bloom_bits db)"
  "bloom (snd (kvs_put_raw db k v)) =
     (if bloom_bits (snd (kvs_put_raw db k v)) \<noteq> bloom_bits db
      then (\<Union>ke\<in>{ke \<in> set (chain_slots (root (snd (kvs_put_raw db k v)))). live ke}.
              bloom_positions (bloom_bits (snd (kvs_put_raw db k v))) (fst ke))
      else if fst (kvs_put_raw db k v) = KVS_OK
           then bloom db \<union> bloom_positions (bloom_bits db) k else bloom db)"
proof -
  obtain e kp vp db3 where al: "put_allocs db k v = (e, kp, vp, db3)"
    by (cases "put_allocs db k v") auto
  have "bloom_bits (snd (kvs_put_raw db k v)) =
     (if fst (kvs_put_raw db k v) = KVS_OK \<and> count (snd (kvs_put_raw db k v)) mod 1000 = 0 \<and>
         bloom_bits db \<le> 2 * bloom_set_bits (bloom_add db k) \<and>
         bloom_bits db < KVS_BLOOM_MAX_BITS
      then min (4 * bloom_bits db) KVS_BLOOM_MAX_BITS else bloom_bits db) \<and>
   bloom (snd (kvs_put_raw db k v)) =
     (if bloom_bits (snd (kvs_put_raw db k v)) \<noteq> bloom_bits db
      then (\<Union>ke\<in>{ke \<in> set (chain_slots (root (snd (kvs_put_raw db k v)))). live ke}.
              bloom_positions (bloom_bits (snd (kvs_put_raw db k v))) (fst ke))
      else if fst (kvs_put_raw db k v) = KVS_OK
           then bloom db \<union> bloom_positions (bloom_bits db) k else bloom db)"
  proof (cases "e = None \<or> kp = None \<or> vp = None")
    case True
    have r: "kvs_put_raw db k v = (KVS_ERR_NOMEM, db3)"
      using al True by (rule kvs_put_raw_nomem)
    show ?thesis unfolding r using put_allocs_fields [OF al] by simp
  next
    case False
    then obtain a b c where al': "put_allocs db k v = (Some a, Some b, Some c, db3)"
      using al by auto
    obtain d6 where d6: "snd (kvs_put_raw db k v) =
        (if count d6 mod 1000 = 0 then bloom_check_expand d6 else d6)"
      "bloom d6 = bloom db \<union> bloom_positions (bloom_bits db) k"
      "bloom_bits d6 = bloom_bits db"
      "bloom_set_bits d6 = bloom_set_bits (bloom_add db k)"
      "count d6 = count (snd (kvs_put_raw db k v))"
      using kvs_put_raw_shape [OF al'] by blast
    have ok: "fst (kvs_put_raw db k v) = KVS_OK" using kvs_put_raw_ok(1) [OF al'] .
    show ?thesis
    proof (cases "count d6 mod 1000 = 0")
      case True
      have r: "snd (kvs_put_raw db k v) = bloom_check_expand d6" using d6(1) True by simp
      have c: "count (bloom_check_expand d6) mod 1000 = 0" using True by simp
      show ?thesis
        unfolding r ok
        using bloom_check_expand_bits [of d6] bloom_check_expand_bloom [of d6] c
        unfolding d6(2) d6(3) d6(4) by simp
    next
      case False
      have r: "snd (kvs_put_raw db k v) = d6" using d6(1) False by simp
      show ?thesis unfolding r ok using False d6(2) d6(3) by simp
    qed
  qed
  then show
    "bloom_bits (snd (kvs_put_raw db k v)) =
     (if fst (kvs_put_raw db k v) = KVS_OK \<and> count (snd (kvs_put_raw db k v)) mod 1000 = 0 \<and>
         bloom_bits db \<le> 2 * bloom_set_bits (bloom_add db k) \<and>
         bloom_bits db < KVS_BLOOM_MAX_BITS
      then min (4 * bloom_bits db) KVS_BLOOM_MAX_BITS else bloom_bits db)"
    "bloom (snd (kvs_put_raw db k v)) =
     (if bloom_bits (snd (kvs_put_raw db k v)) \<noteq> bloom_bits db
      then (\<Union>ke\<in>{ke \<in> set (chain_slots (root (snd (kvs_put_raw db k v)))). live ke}.
              bloom_positions (bloom_bits (snd (kvs_put_raw db k v))) (fst ke))
      else if fst (kvs_put_raw db k v) = KVS_OK
           then bloom db \<union> bloom_positions (bloom_bits db) k else bloom db)"
    by simp_all
qed

lemma kvs_delete_bloom: "bloom (snd (kvs_delete db key)) = bloom db"
  by (simp add: kvs_delete_def Let_def)

lemma put_counted:
  assumes "bloom_counted db"
  shows "bloom_counted (snd (kvs_put_raw db k v))"
proof -
  obtain e kp vp db3 where al: "put_allocs db k v = (e, kp, vp, db3)"
    by (cases "put_allocs db k v") auto
  show ?thesis
  proof (cases "e = None \<or> kp = None \<or> vp = None")
    case True
    have r: "kvs_put_raw db k v = (KVS_ERR_NOMEM, db3)"
      using al True by (rule kvs_put_raw_nomem)
    show ?thesis unfolding r using put_allocs_fields [OF al] assms by (simp add: bloom_counted_def)
  next
    case False
    then obtain a b c where al': "put_allocs db k v = (Some a, Some b, Some c, db3)"
      using al by auto
    obtain d6 where d6: "snd (kvs_put_raw db k v) =
        (if count d6 mod 1000 = 0 then bloom_check_expand d6 else d6)"
      "bloom d6 = bloom db \<union> bloom_positions (bloom_bits db) k"
      "bloom_set_bits d6 = bloom_set_bits (bloom_add db k)"
      using kvs_put_raw_shape [OF al'] by blast
    have "bloom_counted (bloom_add db k)" using assms by (rule bloom_add_counted)
    then have "bloom_counted d6"
      unfolding bloom_counted_def d6(2) d6(3) bloom_add_bloom .
    then show ?thesis unfolding d6(1) by (simp add: bloom_check_expand_counted)
  qed
qed

lemma kvs_delete_bits: "bloom_bits (snd (kvs_delete db key)) = bloom_bits db"
  by (simp add: kvs_delete_def Let_def)

text \<open>The sizes of the filter: a positive multiple of 8, at most the maximum.\<close>

lemma put_bits_ok:
  assumes "0 < bloom_bits db \<and> 8 dvd bloom_bits db \<and> bloom_bits db \<le> KVS_BLOOM_MAX_BITS"
  shows "0 < bloom_bits (snd (kvs_put_raw db k v)) \<and> 8 dvd bloom_bits (snd (kvs_put_raw db k v)) \<and>
         bloom_bits (snd (kvs_put_raw db k v)) \<le> KVS_BLOOM_MAX_BITS"
proof -
  have "8 dvd KVS_BLOOM_MAX_BITS" by (simp add: KVS_BLOOM_MAX_BITS_def)
  then have "0 < min (4 * bloom_bits db) KVS_BLOOM_MAX_BITS \<and>
        8 dvd min (4 * bloom_bits db) KVS_BLOOM_MAX_BITS \<and>
        min (4 * bloom_bits db) KVS_BLOOM_MAX_BITS \<le> KVS_BLOOM_MAX_BITS"
    using assms by (simp add: min_def)
  then show ?thesis unfolding put_bloom_fields(1) using assms by simp
qed

lemma reachable_bits:
  "reachable db \<Longrightarrow>
     0 < bloom_bits db \<and> 8 dvd bloom_bits db \<and> bloom_bits db \<le> KVS_BLOOM_MAX_BITS"
proof (induction rule: reachable.induct)
  case reach_open
  show ?case by (simp add: kvs_open_def KVS_BLOOM_INIT_BITS_def KVS_BLOOM_MAX_BITS_def)
next
  case (reach_put db k v)
  show ?case using reach_put.IH by (rule put_bits_ok)
next
  case (reach_delete db key)
  show ?case using reach_delete.IH by (simp add: kvs_delete_bits)
qed

section \<open>Replaying a list of entries\<close>

lemma live_entry_eq: "\<not> edeleted e \<Longrightarrow> \<lparr>ekey = ekey e, evalue = evalue e, edeleted = False\<rparr> = e"
  by simp

lemma slot_cost_snd: "slot_cost (k, e) = slot_cost (k', e)"
  by (simp add: slot_cost_def)

lemma replay_Cons: "replay (e # es) d = replay es (snd (kvs_put_raw d (ekey e) (evalue e)))"
  by (simp add: replay_def)

lemma replay_snoc: "replay (es @ [e]) d = snd (kvs_put_raw (replay es d) (ekey e) (evalue e))"
  by (simp add: replay_def)

lemma replay_appends:
  assumes "kvs_inv d" "sorted_wrt (<) (map ekey es)" "\<forall>e\<in>set es. \<not> edeleted e"
    and "\<forall>ke\<in>set (chain_slots (root d)). \<forall>e\<in>set es. fst ke < ekey e"
    and "pool_pos d + sum_list (map (\<lambda>e. slot_cost (ekey e, e)) es) \<le> pool_size d"
  shows "kvs_inv (replay es d) \<and>
         chain_slots (root (replay es d)) = chain_slots (root d) @ map (\<lambda>e. (ekey e, e)) es"
  using assms
proof (induction es arbitrary: d)
  case Nil
  then show ?case by (simp add: replay_def)
next
  case (Cons e es)
  define d1 where "d1 = snd (kvs_put_raw d (ekey e) (evalue e))"
  have ee: "\<lparr>ekey = ekey e, evalue = evalue e, edeleted = False\<rparr> = e"
    using Cons.prems(3) by simp
  have le: "pool_pos d + slot_cost (ekey e, e) \<le> pool_size d" using Cons.prems(5) by simp
  have "fst (kvs_put_raw d (ekey e) (evalue e)) = KVS_OK"
    unfolding put_succeeds_iff ee using le .
  then obtain a b c db3 where
    al: "put_allocs d (ekey e) (evalue e) = (Some a, Some b, Some c, db3)"
    using put_ok_allocs by blast
  have S: "bp_sorted (root d)" using Cons.prems(1) by (simp add: kvs_inv_def)
  note ok = kvs_put_raw_ok [OF al, folded d1_def, unfolded ee]
  note sl = put_ok_slots [OF S al, folded d1_def, unfolded ee]
  have below: "\<forall>a\<in>set (chain_slots (root d)). fst a < ekey e" using Cons.prems(4) by simp
  have s1: "chain_slots (root d1) = chain_slots (root d) @ [(ekey e, e)]"
    unfolding sl(2) using slot_put_append_left [OF below, of e "[]"] by simp
  have i1: "kvs_inv d1" unfolding d1_def using Cons.prems(1) by (rule kvs_put_raw_inv)
  have so: "sorted_wrt (<) (map ekey es)" and lt: "\<forall>e'\<in>set es. ekey e < ekey e'"
    using Cons.prems(2) by simp_all
  have k1: "\<forall>ke\<in>set (chain_slots (root d1)). \<forall>e\<in>set es. fst ke < ekey e"
    unfolding s1 using Cons.prems(4) lt by auto
  have p1: "pool_pos d1 + sum_list (map (\<lambda>e. slot_cost (ekey e, e)) es) \<le> pool_size d1"
    unfolding ok(4) ok(5) using Cons.prems(5) by simp
  have li: "\<forall>e\<in>set es. \<not> edeleted e" using Cons.prems(3) by simp
  have "kvs_inv (replay es d1) \<and>
        chain_slots (root (replay es d1)) = chain_slots (root d1) @ map (\<lambda>e. (ekey e, e)) es"
    using i1 so li k1 p1 by (rule Cons.IH)
  then show ?case unfolding replay_Cons d1_def [symmetric] s1 by simp
qed

lemma replay_pool:
  assumes "pool_pos d + sum_list (map (\<lambda>e. slot_cost (ekey e, e)) es) \<le> pool_size d"
  shows "pool_pos (replay es d) = pool_pos d + sum_list (map (\<lambda>e. slot_cost (ekey e, e)) es) \<and>
         pool_size (replay es d) = pool_size d"
  using assms
proof (induction es arbitrary: d)
  case Nil
  show ?case by (simp add: replay_def)
next
  case (Cons e es)
  define d1 where "d1 = snd (kvs_put_raw d (ekey e) (evalue e))"
  have c: "slot_cost (ekey e, \<lparr>ekey = ekey e, evalue = evalue e, edeleted = False\<rparr>) =
           slot_cost (ekey e, e)"
    by (simp add: slot_cost_def)
  have "fst (kvs_put_raw d (ekey e) (evalue e)) = KVS_OK"
    unfolding put_succeeds_iff c using Cons.prems by simp
  then obtain a b c' db3 where
    al: "put_allocs d (ekey e) (evalue e) = (Some a, Some b, Some c', db3)"
    using put_ok_allocs by blast
  note ok = kvs_put_raw_ok [OF al, folded d1_def, unfolded c]
  have "pool_pos d1 + sum_list (map (\<lambda>e. slot_cost (ekey e, e)) es) \<le> pool_size d1"
    unfolding ok(4) ok(5) using Cons.prems by simp
  then have "pool_pos (replay es d1) =
               pool_pos d1 + sum_list (map (\<lambda>e. slot_cost (ekey e, e)) es) \<and>
             pool_size (replay es d1) = pool_size d1"
    by (rule Cons.IH)
  then show ?case unfolding replay_Cons d1_def [symmetric] ok(4) ok(5) by simp
qed

lemma reachable_replay: "reachable d \<Longrightarrow> reachable (replay es d)"
proof (induction es arbitrary: d)
  case Nil
  then show ?case by (simp add: replay_def)
next
  case (Cons e es)
  have "reachable (snd (kvs_put_raw d (ekey e) (evalue e)))" using Cons.prems by (rule reach_put)
  then show ?case unfolding replay_Cons by (rule Cons.IH)
qed

section \<open>Lookup and iteration\<close>

lemma sorted_fst_distinct:
  fixes xs :: "('a::order \<times> 'b) list"
  shows "sorted_wrt (<) (map fst xs) \<Longrightarrow> distinct (map fst xs)"
  by (induction xs) auto

lemma get_iff_foreach:
  assumes "kvs_inv db"
  shows "kvs_get_raw db k = Some v \<longleftrightarrow> (k, v) \<in> set (foreach_calls db)"
proof
  have S: "bp_sorted (root db)" and B: "bloom_covers db"
    using assms by (simp_all add: kvs_inv_def)
  note ek = chain_slots_ekey [OF S]
  have di: "distinct (map fst (chain_slots (root db)))"
    using chain_slots_sorted [OF S] by (rule sorted_fst_distinct)
  {
    assume "kvs_get_raw db k = Some v"
    then obtain e where e: "map_of (chain_slots (root db)) k = Some e" "\<not> edeleted e" "evalue e = v"
      unfolding kvs_get_raw_map_of [OF S] by (auto split: if_splits option.splits)
    have m: "(k, e) \<in> set (chain_slots (root db))" using e(1) by (rule map_of_SomeD)
    then have "ekey e = k" using ek by auto
    then have "(k, v) = (\<lambda>ke. (ekey (snd ke), evalue (snd ke))) (k, e)" using e(3) by simp
    then show "(k, v) \<in> set (foreach_calls db)"
      unfolding foreach_calls_def using m e(2) by (metis (mono_tags, lifting) image_eqI
          list.set_map mem_Collect_eq set_filter snd_conv)
  }
  {
    assume "(k, v) \<in> set (foreach_calls db)"
    then obtain ke where ke: "ke \<in> set (chain_slots (root db))" "\<not> edeleted (snd ke)"
      "ekey (snd ke) = k" "evalue (snd ke) = v"
      unfolding foreach_calls_def by auto
    have f: "fst ke = k" using ek ke(1,3) by auto
    then have "(k, snd ke) \<in> set (chain_slots (root db))" using ke(1) by (cases ke) auto
    then have m: "map_of (chain_slots (root db)) k = Some (snd ke)"
      using di by simp
    have "live ke" using ke(2) by (simp add: live_def)
    then have "bloom_maybe db k" using B ke(1) f by (auto simp: bloom_covers_def)
    then show "kvs_get_raw db k = Some v"
      unfolding kvs_get_raw_map_of [OF S] using m ke(2,4) by simp
  }
qed

lemma get_eq_if_foreach_eq:
  assumes "kvs_inv db" "kvs_inv db'" "set (foreach_calls db') = set (foreach_calls db)"
  shows "kvs_get_raw db' k = kvs_get_raw db k"
proof (cases "kvs_get_raw db k")
  case None
  have "kvs_get_raw db' k \<noteq> Some v" for v
    using get_iff_foreach [OF assms(2), of k v] get_iff_foreach [OF assms(1), of k v] assms(3) None
    by simp
  then show ?thesis using None by (cases "kvs_get_raw db' k") auto
next
  case (Some v)
  then show ?thesis
    using get_iff_foreach [OF assms(2), of k v] get_iff_foreach [OF assms(1), of k v] assms(3)
    by simp
qed

section \<open>Tombstones at the interface\<close>

text \<open>
  \<open>kvs_cursor_first\<close>, \<open>kvs_cursor_last\<close>, \<open>kvs_cursor_next\<close> and \<open>kvs_cursor_prev\<close> step over
  tombstoned entries: none of them leaves the cursor on one.
\<close>

lemma first_loop_stops: "\<not> on_tombstone db (first_loop db cur)"
proof (induction db cur rule: first_loop.induct)
  case (1 db cur)
  show ?case
  proof (cases "on_tombstone db cur")
    case True
    then show ?thesis using 1 by (subst first_loop.simps) simp
  next
    case False
    then show ?thesis by (subst first_loop.simps) simp
  qed
qed

lemma last_loop_stops: "\<not> before_tombstone db (last_loop db cur)"
proof (induction db cur rule: last_loop.induct)
  case (1 db cur)
  show ?case
  proof (cases "before_tombstone db cur")
    case True
    then show ?thesis using 1 by (subst last_loop.simps) simp
  next
    case False
    then show ?thesis by (subst last_loop.simps) simp
  qed
qed

lemma on_deleted_tombstone: "cursor_on_deleted db cur \<Longrightarrow> on_tombstone db cur"
  by (cases "cur_node cur")
     (simp_all add: cursor_on_deleted_def on_tombstone_def kvs_cursor_valid_def)

lemma on_deleted_before: "cursor_on_deleted db cur \<Longrightarrow> before_tombstone db cur"
  by (cases "cur_node cur")
     (simp_all add: cursor_on_deleted_def before_tombstone_def kvs_cursor_valid_def)

lemma kvs_cursor_first_live: "\<not> cursor_on_deleted db (kvs_cursor_first db cur)"
  using first_loop_stops on_deleted_tombstone unfolding kvs_cursor_first_def by blast

lemma kvs_cursor_last_live: "\<not> cursor_on_deleted db (kvs_cursor_last db cur)"
  using last_loop_stops on_deleted_before unfolding kvs_cursor_last_def Let_def by blast

lemma kvs_cursor_next_live:
  assumes "kvs_cursor_valid db cur"
  shows "\<not> cursor_on_deleted db (kvs_cursor_next db cur)"
proof -
  obtain n where n: "cur_node cur = Some n"
    using assms by (cases "cur_node cur") (simp_all add: kvs_cursor_valid_def)
  obtain r j where r: "cursor_next_loop (leaf_nodes (root db)) n (cur_index cur) = (r, j)"
    by (cases "cursor_next_loop (leaf_nodes (root db)) n (cur_index cur)") auto
  show ?thesis
  proof (cases r)
    case None
    then show ?thesis
      by (simp add: kvs_cursor_next_def n r cursor_on_deleted_def kvs_cursor_valid_def)
  next
    case (Some m)
    then show ?thesis
      using cursor_next_loop_stops [of "leaf_nodes (root db)" n "cur_index cur" m j] r
      by (simp add: kvs_cursor_next_def n cursor_on_deleted_def kvs_cursor_valid_def)
  qed
qed

lemma kvs_cursor_prev_live:
  assumes "kvs_cursor_valid db cur"
  shows "\<not> cursor_on_deleted db (kvs_cursor_prev db cur)"
proof -
  obtain n where n: "cur_node cur = Some n"
    using assms by (cases "cur_node cur") (simp_all add: kvs_cursor_valid_def)
  obtain r j where r: "cursor_prev_loop (leaf_nodes (root db)) n (cur_index cur) = (r, j)"
    by (cases "cursor_prev_loop (leaf_nodes (root db)) n (cur_index cur)") auto
  show ?thesis
    using cursor_prev_loop_stops [OF r]
    by (cases r)
       (simp_all add: kvs_cursor_prev_def n r cursor_on_deleted_def kvs_cursor_valid_def)
qed

lemma strlen_z: "strlen [122] = 1"
  by (simp add: strlen_def)

lemma deleted_a_store:
  "snd (kvs_delete (snd (kvs_put_raw kvs_open [97] [49])) [97]) =
     \<lparr>pool_size = 134217728, pool_pos = 48,
      root = Leaf [([97], \<lparr>ekey = [97], evalue = [49], edeleted = True\<rparr>)],
      count = 0, bloom = {465724, 990292, 796972}, bloom_bits = 1048576,
      bloom_set_bits = 3\<rparr>"
  by (simp add: delete_a_eval)

lemma seek_deleted_a:
  "kvs_cursor_seek (snd (kvs_delete (snd (kvs_put_raw kvs_open [97] [49])) [97]))
     kvs_cursor_new [97] = \<lparr>cur_node = Some 0, cur_index = 0\<rparr>"
  unfolding deleted_a_store
  by (simp add: kvs_cursor_seek_def strlen_a Let_def leaf_find_pos_def
      num_keys_def bsearch_lt.simps)

lemma next_deleted_a:
  "kvs_cursor_next (snd (kvs_delete (snd (kvs_put_raw kvs_open [97] [49])) [97]))
     \<lparr>cur_node = Some 0, cur_index = 0\<rparr> = \<lparr>cur_node = None, cur_index = 0\<rparr>"
  unfolding deleted_a_store
  by (simp add: kvs_cursor_next_def cursor_next_loop.simps num_keys_def leaf_next_def)

text \<open>
  Claim C1. \<open>kvs_cursor_seek\<close> has no loop over tombstoned entries. In the store reached
  from a fresh one by put \<open>a \<mapsto> 1\<close> and delete \<open>a\<close>, \<open>kvs_get\<close> finds nothing, \<open>kvs_foreach\<close>
  calls nothing and \<open>kvs_cursor_first\<close> leaves an invalid cursor, but \<open>kvs_cursor_seek\<close> to
  \<open>a\<close> leaves a valid cursor on the tombstoned entry, whose accessors return the key \<open>a\<close>
  and the value \<open>1\<close>, and \<open>kvs_range\<close> from \<open>a\<close> to \<open>z\<close> calls the callback on that pair.
\<close>

theorem seek_stops_on_tombstone:
  "reachable (snd (kvs_delete (snd (kvs_put_raw kvs_open [97] [49])) [97])) \<and>
   kvs_get (snd (kvs_delete (snd (kvs_put_raw kvs_open [97] [49])) [97])) [97] = None \<and>
   foreach_calls (snd (kvs_delete (snd (kvs_put_raw kvs_open [97] [49])) [97])) = [] \<and>
   \<not> kvs_cursor_valid (snd (kvs_delete (snd (kvs_put_raw kvs_open [97] [49])) [97]))
       (kvs_cursor_first (snd (kvs_delete (snd (kvs_put_raw kvs_open [97] [49])) [97]))
          kvs_cursor_new) \<and>
   cursor_on_deleted (snd (kvs_delete (snd (kvs_put_raw kvs_open [97] [49])) [97]))
     (kvs_cursor_seek (snd (kvs_delete (snd (kvs_put_raw kvs_open [97] [49])) [97]))
        kvs_cursor_new [97]) \<and>
   kvs_cursor_key (snd (kvs_delete (snd (kvs_put_raw kvs_open [97] [49])) [97]))
     (kvs_cursor_seek (snd (kvs_delete (snd (kvs_put_raw kvs_open [97] [49])) [97]))
        kvs_cursor_new [97]) = Some [97] \<and>
   kvs_cursor_value (snd (kvs_delete (snd (kvs_put_raw kvs_open [97] [49])) [97]))
     (kvs_cursor_seek (snd (kvs_delete (snd (kvs_put_raw kvs_open [97] [49])) [97]))
        kvs_cursor_new [97]) = Some [49] \<and>
   kvs_range (snd (kvs_delete (snd (kvs_put_raw kvs_open [97] [49])) [97])) [97] [122] =
     Some [([97], [49])]"
proof -
  define db where "db = snd (kvs_delete (snd (kvs_put_raw kvs_open [97] [49])) [97])"
  have d: "db = \<lparr>pool_size = 134217728, pool_pos = 48,
      root = Leaf [([97], \<lparr>ekey = [97], evalue = [49], edeleted = True\<rparr>)],
      count = 0, bloom = {465724, 990292, 796972}, bloom_bits = 1048576,
      bloom_set_bits = 3\<rparr>"
    unfolding db_def by (rule deleted_a_store)
  have s: "kvs_cursor_seek db kvs_cursor_new [97] = \<lparr>cur_node = Some 0, cur_index = 0\<rparr>"
    unfolding db_def by (rule seek_deleted_a)
  have n: "kvs_cursor_next db \<lparr>cur_node = Some 0, cur_index = 0\<rparr> =
           \<lparr>cur_node = None, cur_index = 0\<rparr>"
    unfolding db_def by (rule next_deleted_a)
  have r: "reachable db" unfolding db_def by (rule reachable_put_delete_a)
  have g: "kvs_get db [97] = None"
    unfolding d
    by (simp add: kvs_get_def kvs_get_raw_def strlen_a Let_def leaf_find_pos_def num_keys_def
        bsearch_lt.simps)
  have f: "foreach_calls db = []"
    unfolding d by (simp add: foreach_calls_def)
  have v: "kvs_cursor_valid db \<lparr>cur_node = Some 0, cur_index = 0\<rparr>"
    unfolding d by (simp add: kvs_cursor_valid_def num_keys_def)
  have nv: "\<not> kvs_cursor_valid db \<lparr>cur_node = None, cur_index = 0\<rparr>"
    by (simp add: kvs_cursor_valid_def)
  have fi: "kvs_cursor_first db kvs_cursor_new = \<lparr>cur_node = None, cur_index = 0\<rparr>"
  proof -
    have t: "on_tombstone db \<lparr>cur_node = Some 0, cur_index = 0\<rparr>"
      unfolding d by (simp add: on_tombstone_def num_keys_def)
    have u: "\<not> on_tombstone db \<lparr>cur_node = None, cur_index = 0\<rparr>"
      by (simp add: on_tombstone_def)
    have "first_loop db \<lparr>cur_node = Some 0, cur_index = 0\<rparr> =
          first_loop db \<lparr>cur_node = None, cur_index = 0\<rparr>"
      by (subst first_loop.simps) (simp only: t n if_True)
    also have "\<dots> = \<lparr>cur_node = None, cur_index = 0\<rparr>"
      by (subst first_loop.simps) (simp only: u if_False)
    finally show ?thesis by (simp add: kvs_cursor_first_def)
  qed
  have od: "cursor_on_deleted db \<lparr>cur_node = Some 0, cur_index = 0\<rparr>"
    unfolding cursor_on_deleted_def using v by (simp add: d)
  have ck: "kvs_cursor_key db \<lparr>cur_node = Some 0, cur_index = 0\<rparr> = Some [97]"
    unfolding kvs_cursor_key_def using v by (simp add: d)
  have cv: "kvs_cursor_value db \<lparr>cur_node = Some 0, cur_index = 0\<rparr> = Some [49]"
    unfolding kvs_cursor_value_def using v by (simp add: d)
  have l2: "range_loop db [122] \<lparr>cur_node = None, cur_index = 0\<rparr> = Some []"
    by (subst range_loop.simps) (simp add: nv)
  have l1: "range_loop db [122] \<lparr>cur_node = Some 0, cur_index = 0\<rparr> = Some [([97], [49])]"
    by (subst range_loop.simps) (simp add: v ck cv n l2 keycmp_def memcmp.simps)
  have rg: "kvs_range db [97] [122] = Some [([97], [49])]"
    by (simp add: kvs_range_def s strlen_z l1)
  show ?thesis
    using r g f nv fi od ck cv rg unfolding s db_def [symmetric] by simp
qed

section \<open>Persistence\<close>

lemma fread_var_append: "length a = n \<Longrightarrow> fread_var n (a @ r) = Some (a, r)"
  by (simp add: fread_var_def)

lemma fread_buf_append: "length a = n \<Longrightarrow> fread_buf prior n (a @ r) = (a, r)"
  by (simp add: fread_buf_def)

lemma length_le_bytes [simp]: "length (le_bytes n v) = n"
  by (induction n arbitrary: v) simp_all

lemma le_val_le_bytes: "le_val (le_bytes n v) = v mod 256 ^ n"
proof (induction n arbitrary: v)
  case 0
  show ?case by simp
next
  case (Suc n)
  have b: "unat (word_of_nat (v mod 256) :: byte) = v mod 256"
    by (simp add: unat_of_nat)
  have "v mod (256 * 256 ^ n) = 256 * (v div 256 mod 256 ^ n) + v mod 256"
    by (rule mod_mult2_eq)
  then show ?case using Suc [of "v div 256"] b by simp
qed

lemma le_val_le_bytes_small: "v < 256 ^ n \<Longrightarrow> le_val (le_bytes n v) = v"
  by (simp add: le_val_le_bytes)

lemma fread_var_le_bytes: "fread_var n (le_bytes n v @ r) = Some (le_bytes n v, r)"
  by (rule fread_var_append) simp

lemma load_entry_step:
  assumes "length (ekey e) < 2 ^ 32 - 1" "length (evalue e) < 2 ^ 32 - 1"
  shows "load_entries junk i (Suc n) (save_entry e @ rest) d =
         load_entries junk (Suc i) n rest (snd (kvs_put_raw d (ekey e) (evalue e)))"
proof -
  have k: "le_val (le_bytes 4 (length (ekey e))) = length (ekey e)"
    using assms(1) by (intro le_val_le_bytes_small) simp
  have v: "le_val (le_bytes 4 (length (evalue e))) = length (evalue e)"
    using assms(2) by (intro le_val_le_bytes_small) simp
  have s: "save_entry e @ rest =
     le_bytes 4 (length (ekey e)) @ le_bytes 4 (length (evalue e)) @ ekey e @ evalue e @ rest"
    by (simp add: save_entry_def)
  have n: "\<not> (length (ekey e) = 2 ^ 32 - 1 \<or> length (evalue e) = 2 ^ 32 - 1)"
    using assms by simp
  show ?thesis
    unfolding s load_entries.simps Let_def fread_var_le_bytes option.case fst_conv snd_conv k v
    using n by (simp add: fread_buf_append)
qed

lemma load_entries_saved:
  assumes "\<forall>e\<in>set es. length (ekey e) < 2 ^ 32 - 1 \<and> length (evalue e) < 2 ^ 32 - 1"
  shows "load_entries junk i (length es) (concat (map save_entry es) @ rest) d =
         Some (replay es d)"
  using assms
proof (induction es arbitrary: d i)
  case Nil
  show ?case by (simp add: replay_def)
next
  case (Cons e es)
  have "load_entries junk i (Suc (length es)) (save_entry e @ concat (map save_entry es) @ rest) d =
        load_entries junk (Suc i) (length es) (concat (map save_entry es) @ rest)
          (snd (kvs_put_raw d (ekey e) (evalue e)))"
    using Cons.prems by (intro load_entry_step) simp_all
  then show ?case using Cons by (simp add: replay_def)
qed

lemma length_bloom_bytes [simp]: "length (bloom_bytes db) = bloom_bits db div 8"
  by (simp add: bloom_bytes_def)

lemma load_saved:
  assumes "count db = live_count (root db)" "count db < 2 ^ 64" "bloom_bits db < 2 ^ 64"
    and "0 < bloom_bits db" "8 dvd bloom_bits db"
    and "\<forall>ke\<in>set (chain_slots (root db)).
           length (ekey (snd ke)) < 2 ^ 32 - 1 \<and> length (evalue (snd ke)) < 2 ^ 32 - 1"
  shows "kvs_load junk (kvs_save db) =
         Loaded (replay (map snd (filter live (chain_slots (root db))))
                   (kvs_open\<lparr>bloom_bits := bloom_bits db,
                             bloom := bits_of_bytes (bloom_bytes db)\<rparr>))"
proof -
  define es where "es = map snd (filter live (chain_slots (root db)))"
  have l: "live = (\<lambda>ke. \<not> edeleted (snd ke))" by (rule ext) (simp add: live_def)
  have body: "concat (map (\<lambda>ke. save_entry (snd ke))
                 (filter (\<lambda>ke. \<not> edeleted (snd ke)) (chain_slots (root db)))) =
              concat (map save_entry es)"
    by (simp add: es_def l comp_def)
  have n: "count db = length es" using assms(1) by (simp add: es_def live_count_def)
  have m: "le_val (le_bytes 4 KVS_MAGIC) = KVS_MAGIC"
    by (intro le_val_le_bytes_small) (simp add: KVS_MAGIC_def)
  have c: "le_val (le_bytes 8 (count db)) = count db"
    using assms(2) by (intro le_val_le_bytes_small) simp
  have b: "le_val (le_bytes 8 (bloom_bits db)) = bloom_bits db"
    using assms(3) by (intro le_val_le_bytes_small) simp
  have es: "\<forall>e\<in>set es. length (ekey e) < 2 ^ 32 - 1 \<and> length (evalue e) < 2 ^ 32 - 1"
    using assms(6) by (auto simp: es_def)
  have bl: "fread_buf prior (bloom_bits db div 8) (bloom_bytes db @ r) = (bloom_bytes db, r)"
    for prior r
    by (rule fread_buf_append) simp
  have en: "load_entries junk 0 (length es) (concat (map save_entry es)) d = Some (replay es d)"
    for d
    using load_entries_saved [OF es, of junk 0 "[]" d] by simp
  have v: "\<not> (bloom_bits db = 0 \<or> bloom_bits db mod 8 \<noteq> 0)"
    using assms(4,5) by (simp add: dvd_eq_mod_eq_0)
  show ?thesis
    unfolding es_def [symmetric] kvs_load_def kvs_save_def body Let_def fread_var_le_bytes
      option.case fst_conv snd_conv m c b bl
    using v by (simp add: n en)
qed

lemma slot_cost_member:
  "ke \<in> set xs \<Longrightarrow> slot_cost ke \<le> sum_list (map slot_cost xs)"
  by (induction xs) auto

lemma slot_cost_lengths:
  "length (ekey (snd ke)) < slot_cost ke" "length (evalue (snd ke)) < slot_cost ke"
  by (simp_all add: slot_cost_def sizeof_Entry_def)

lemma pool_ok_lengths:
  assumes "pool_ok db" "ke \<in> set (chain_slots (root db))"
  shows "length (ekey (snd ke)) < 2 ^ 32 - 1 \<and> length (evalue (snd ke)) < 2 ^ 32 - 1"
proof -
  have "slot_cost ke \<le> 2 ^ 27"
    using slot_cost_member [OF assms(2)] assms(1)
    by (simp add: pool_ok_def KVS_DEFAULT_POOL_SIZE_def)
  then show ?thesis using slot_cost_lengths [of ke] by simp
qed

lemma filter_cost_le:
  "sum_list (map slot_cost (filter P xs)) \<le> sum_list (map slot_cost xs)"
  by (induction xs) auto

lemma sorted_fst_filter:
  fixes xs :: "('a::order \<times> 'b) list"
  shows "sorted_wrt (<) (map fst xs) \<Longrightarrow> sorted_wrt (<) (map fst (filter P xs))"
  by (induction xs) auto

lemma loaded_store:
  assumes "kvs_inv db"
    and "0 < bloom_bits db \<and> 8 dvd bloom_bits db \<and> bloom_bits db \<le> KVS_BLOOM_MAX_BITS"
  shows "\<exists>db'. kvs_load junk (kvs_save db) = Loaded db' \<and> kvs_inv db' \<and>
               chain_slots (root db') = filter live (chain_slots (root db))"
proof -
  have S: "bp_sorted (root db)" and C: "count db = live_count (root db)" and P: "pool_ok db"
    using assms(1) by (simp_all add: kvs_inv_def)
  define es where "es = map snd (filter live (chain_slots (root db)))"
  define d0 where "d0 = kvs_open\<lparr>bloom_bits := bloom_bits db,
                                   bloom := bits_of_bytes (bloom_bytes db)\<rparr>"
  note ek = chain_slots_ekey [OF S]
  have c: "count db < 2 ^ 64" using count_small [OF P C] by simp
  have b: "bloom_bits db < 2 ^ 64" using assms(2) by (simp add: KVS_BLOOM_MAX_BITS_def)
  have l: "\<forall>ke\<in>set (chain_slots (root db)).
             length (ekey (snd ke)) < 2 ^ 32 - 1 \<and> length (evalue (snd ke)) < 2 ^ 32 - 1"
    using pool_ok_lengths [OF P] by blast
  have z: "0 < bloom_bits db" and dv: "8 dvd bloom_bits db" using assms(2) by simp_all
  have ld: "kvs_load junk (kvs_save db) = Loaded (replay es d0)"
    unfolding es_def d0_def using C c b z dv l by (rule load_saved)
  have i0: "kvs_inv d0"
    by (simp add: d0_def kvs_inv_def kvs_open_def live_count_def pool_ok_def bloom_covers_def)
  have r0: "chain_slots (root d0) = []" "pool_pos d0 = 0" "pool_size d0 = KVS_DEFAULT_POOL_SIZE"
    by (simp_all add: d0_def kvs_open_def)
  have me: "map ekey es = map fst (filter live (chain_slots (root db)))"
    unfolding es_def using ek by simp
  have so: "sorted_wrt (<) (map ekey es)"
    unfolding me using chain_slots_sorted [OF S] by (rule sorted_fst_filter)
  have li: "\<forall>e\<in>set es. \<not> edeleted e" by (auto simp: es_def live_def)
  have k0: "\<forall>ke\<in>set (chain_slots (root d0)). \<forall>e\<in>set es. fst ke < ekey e"
    unfolding r0 by simp
  have "map (\<lambda>e. slot_cost (ekey e, e)) es = map slot_cost (filter live (chain_slots (root db)))"
    unfolding es_def map_map comp_def
    by (rule map_cong [OF refl]) (simp add: slot_cost_def)
  then have "sum_list (map (\<lambda>e. slot_cost (ekey e, e)) es) \<le>
             sum_list (map slot_cost (chain_slots (root db)))"
    using filter_cost_le [of live "chain_slots (root db)"] by simp
  then have p0: "pool_pos d0 + sum_list (map (\<lambda>e. slot_cost (ekey e, e)) es) \<le> pool_size d0"
    unfolding r0 using P by (simp add: pool_ok_def)
  have r: "kvs_inv (replay es d0) \<and>
           chain_slots (root (replay es d0)) = chain_slots (root d0) @ map (\<lambda>e. (ekey e, e)) es"
    using i0 so li k0 p0 by (rule replay_appends)
  have "map (\<lambda>e. (ekey e, e)) es = filter live (chain_slots (root db))"
    unfolding es_def map_map comp_def
    by (rule map_idI) (use ek in auto)
  then show ?thesis using ld r unfolding r0 by simp
qed

text \<open>
  Claim C5. For every store that a fresh store reaches by puts and deletes, \<open>kvs_load\<close> of
  the file that \<open>kvs_save\<close> writes returns a store in which \<open>kvs_foreach\<close> makes the same
  calls, in the same order, as in the original, and every \<open>kvs_get_raw\<close> returns what it
  returns in the original: the live pairs are those of the original store. The arena of
  the loaded store is never exhausted by the replay of the entries.
\<close>

theorem save_load_round_trip:
  assumes "reachable db"
  shows "\<exists>db'. kvs_load junk (kvs_save db) = Loaded db' \<and>
               foreach_calls db' = foreach_calls db \<and>
               set (foreach_calls db') = set (foreach_calls db) \<and>
               (\<forall>k. kvs_get_raw db' k = kvs_get_raw db k)"
proof -
  have i: "kvs_inv db" using assms by (rule reachable_inv)
  have b: "0 < bloom_bits db \<and> 8 dvd bloom_bits db \<and> bloom_bits db \<le> KVS_BLOOM_MAX_BITS"
    using assms by (rule reachable_bits)
  obtain db' where d: "kvs_load junk (kvs_save db) = Loaded db'" "kvs_inv db'"
    "chain_slots (root db') = filter live (chain_slots (root db))"
    using loaded_store [OF i b] by blast
  have l: "live = (\<lambda>ke. \<not> edeleted (snd ke))" by (rule ext) (simp add: live_def)
  have f: "foreach_calls db' = foreach_calls db"
    by (simp add: foreach_calls_def d(3) l)
  have "kvs_get_raw db' k = kvs_get_raw db k" for k
    using i d(2) by (rule get_eq_if_foreach_eq) (simp add: f)
  then show ?thesis using d(1) f by simp
qed

theorem save_load_round_trip_witness:
  "reachable (snd (kvs_put_raw kvs_open [97] [49])) \<and>
   (\<exists>db'. kvs_load (\<lambda>b i. 0) (kvs_save (snd (kvs_put_raw kvs_open [97] [49]))) = Loaded db' \<and>
          foreach_calls db' = [([97], [49])])"
proof -
  have r: "reachable (snd (kvs_put_raw kvs_open [97] [49]))" by (rule reachable_put_a)
  have f: "foreach_calls (snd (kvs_put_raw kvs_open [97] [49])) = [([97], [49])]"
    by (simp add: put_a_eval foreach_calls_def)
  show ?thesis using save_load_round_trip [OF r, of "\<lambda>b i. 0"] r unfolding f by blast
qed



section \<open>Files that are refused\<close>

text \<open>
  Claim C2, as amended. For a file of at least four bytes, \<open>kvs_load\<close> returns \<open>NULL\<close>
  exactly when the first four bytes are not the magic number. A file with the magic number
  is never refused, whatever is missing after it: no result of \<open>fread\<close> is tested.
\<close>

theorem load_refuses_exactly_wrong_magic:
  assumes "4 \<le> length f"
  shows "kvs_load junk f = LoadNull \<longleftrightarrow> le_val (take 4 f) \<noteq> KVS_MAGIC"
  using assms
  by (simp add: kvs_load_def fread_var_def Let_def split: option.splits)

theorem load_refuses_exactly_wrong_magic_witness:
  "4 \<le> length [0, 0, 0, 0 :: byte] \<and> le_val (take 4 [0, 0, 0, 0 :: byte]) \<noteq> KVS_MAGIC \<and>
   kvs_load (\<lambda>b i. 0) [0, 0, 0, 0] = LoadNull \<and>
   4 \<le> length [83, 66, 80, 84, 7 :: byte] \<and>
   le_val (take 4 [83, 66, 80, 84, 7 :: byte]) = KVS_MAGIC \<and>
   kvs_load (\<lambda>b i. 0) [83, 66, 80, 84, 7] \<noteq> LoadNull"
proof -
  have l: "4 \<le> length [0, 0, 0, 0 :: byte]" by simp
  have m: "le_val (take 4 [0, 0, 0, 0 :: byte]) \<noteq> KVS_MAGIC" by (simp add: KVS_MAGIC_def)
  have l': "4 \<le> length [83, 66, 80, 84, 7 :: byte]" by simp
  have m': "le_val (take 4 [83, 66, 80, 84, 7 :: byte]) = KVS_MAGIC" by (simp add: KVS_MAGIC_def)
  show ?thesis
    using load_refuses_exactly_wrong_magic [OF l, of "\<lambda>b i. 0"]
      load_refuses_exactly_wrong_magic [OF l', of "\<lambda>b i. 0"] l m l' m'
    by blast
qed

text \<open>
  The first file below holds the magic number, the count 1, a filter of 8 bits and one
  entry that declares a key of one byte and a value of one byte, but ends after the key:
  the byte of the value is missing. \<open>kvs_load\<close> returns a store in which the key \<open>a\<close> has
  the value that the fresh block holds. The second file holds the magic number, the count 0
  and \<open>bloom_bits = 8\<close>, and ends before the byte of the bit vector; \<open>kvs_load\<close> returns an
  empty store.
\<close>

theorem load_accepts_truncated_file_counterexample:
  "(\<forall>junk. \<exists>db.
      kvs_load junk [83, 66, 80, 84, 1, 0, 0, 0, 0, 0, 0, 0, 8, 0, 0, 0, 0, 0, 0, 0, 0,
                     1, 0, 0, 0, 1, 0, 0, 0, 97] = Loaded db \<and>
      foreach_calls db = [([97], [junk 2 0])]) \<and>
   (\<forall>junk. \<exists>db.
      kvs_load junk [83, 66, 80, 84, 0, 0, 0, 0, 0, 0, 0, 0, 8, 0, 0, 0, 0, 0, 0, 0] = Loaded db \<and>
      foreach_calls db = [])"
proof -
  have a: "\<exists>db.
      kvs_load junk [83, 66, 80, 84, 1, 0, 0, 0, 0, 0, 0, 0, 8, 0, 0, 0, 0, 0, 0, 0, 0,
                     1, 0, 0, 0, 1, 0, 0, 0, 97] = Loaded db \<and>
      foreach_calls db = [([97], [junk 2 0])]" for junk
    by (simp add: kvs_load_def fread_var_def fread_buf_def block_def KVS_MAGIC_def Let_def
      bits_of_bytes_def
      kvs_put_raw_def put_allocs_def kvs_open_def pool_alloc_def sizeof_Entry_def
      KVS_DEFAULT_POOL_SIZE_def bloom_add_def bloom_set_bit_def fnv1a_def hash2_def
      hash3_def KVS_BLOOM_INIT_BITS_def leaf_find_pos_def num_keys_def bsearch_lt.simps
      ORDER_def bloom_check_expand_def insert_commute foreach_calls_def)
       (simp add: numeral_2_eq_2)
  have b: "\<exists>db.
      kvs_load junk [83, 66, 80, 84, 0, 0, 0, 0, 0, 0, 0, 0, 8, 0, 0, 0, 0, 0, 0, 0] = Loaded db \<and>
      foreach_calls db = []" for junk
    by (simp add: kvs_load_def fread_var_def fread_buf_def block_def KVS_MAGIC_def Let_def
        kvs_open_def foreach_calls_def)
  show ?thesis using a b by blast
qed

section \<open>Stores with numbered keys\<close>

lemma byte_of_nat_less:
  "x < 256 \<Longrightarrow> y < 256 \<Longrightarrow> (word_of_nat x :: byte) < word_of_nat y \<longleftrightarrow> x < y"
  by (simp add: word_less_nat_alt unat_of_nat)

lemma byte_of_nat_eq:
  assumes "x < 256" "y < 256"
  shows "(word_of_nat x :: byte) = word_of_nat y \<longleftrightarrow> x = y"
proof
  assume "(word_of_nat x :: byte) = word_of_nat y"
  then have "unat (word_of_nat x :: byte) = unat (word_of_nat y :: byte)" by simp
  then show "x = y" using assms by (simp add: unat_of_nat)
qed simp

lemma two_digit_less:
  fixes a b :: nat
  assumes "a < b"
  shows "a div 10 < b div 10 \<or> a div 10 = b div 10 \<and> a mod 10 < b mod 10"
proof -
  have "a div 10 \<le> b div 10" using assms by (simp add: div_le_mono)
  moreover have "a mod 10 < b mod 10" if "a div 10 = b div 10"
  proof -
    have "a = 10 * (a div 10) + a mod 10" "b = 10 * (b div 10) + b mod 10" by simp_all
    then show ?thesis using assms that by linarith
  qed
  ultimately show ?thesis by linarith
qed

lemma three_digit_less:
  fixes i j :: nat
  assumes "i < j"
  shows "i div 100 < j div 100 \<or>
        i div 100 = j div 100 \<and>
          (i div 10 mod 10 < j div 10 mod 10 \<or> i div 10 mod 10 = j div 10 mod 10 \<and> i mod 10 < j mod 10)"
proof -
  have d: "i div 100 = i div 10 div 10" "j div 100 = j div 10 div 10"
    by (simp_all add: div_mult2_eq)
  show ?thesis
  proof (cases "i div 10 < j div 10")
    case True
    then show ?thesis unfolding d using two_digit_less [OF True] by blast
  next
    case False
    then have e: "i div 10 = j div 10" "i mod 10 < j mod 10"
      using two_digit_less [OF assms] by auto
    then show ?thesis unfolding d by simp
  qed
qed

lemma digits3_less:
  assumes "i < j" "j < 1000"
  shows "digits3 i < digits3 j"
proof -
  have b: "48 + i div 100 < 256" "48 + j div 100 < 256" "48 + i div 10 mod 10 < 256"
    "48 + j div 10 mod 10 < 256" "48 + i mod 10 < 256" "48 + j mod 10 < 256"
    using assms by simp_all
  have "i div 100 < j div 100 \<or>
        i div 100 = j div 100 \<and>
          (i div 10 mod 10 < j div 10 mod 10 \<or> i div 10 mod 10 = j div 10 mod 10 \<and> i mod 10 < j mod 10)"
    using assms(1) by (rule three_digit_less)
  then show ?thesis
    unfolding digits3_def Cons_less_Cons
    by (simp only: byte_of_nat_less [OF b(1) b(2)] byte_of_nat_eq [OF b(1) b(2)]
        byte_of_nat_less [OF b(3) b(4)] byte_of_nat_eq [OF b(3) b(4)]
        byte_of_nat_less [OF b(5) b(6)] byte_of_nat_eq [OF b(5) b(6)]) auto
qed

lemma numbered_keys: "map ekey (numbered n) = map digits3 [0..<n]"
  by (simp add: numbered_def comp_def)

lemma numbered_sorted: "n \<le> 1000 \<Longrightarrow> sorted_wrt (<) (map ekey (numbered n))"
  unfolding numbered_keys sorted_wrt_iff_nth_less
  by (auto intro!: digits3_less)

lemma numbered_live: "\<forall>e\<in>set (numbered n). \<not> edeleted e"
  by (auto simp: numbered_def)

lemma numbered_cost: "sum_list (map (\<lambda>e. slot_cost (ekey e, e)) (numbered n)) = 48 * n"
proof -
  have "map (\<lambda>e. slot_cost (ekey e, e)) (numbered n) = map (\<lambda>i. 48) [0..<n]"
    unfolding numbered_def map_map comp_def
    by (rule map_cong [OF refl]) (simp add: slot_cost_def digits3_def sizeof_Entry_def)
  then show ?thesis by (simp add: sum_list_triv)
qed

lemma numbered_Suc:
  "numbered (Suc n) = numbered n @ [\<lparr>ekey = digits3 n, evalue = [49], edeleted = False\<rparr>]"
  by (simp add: numbered_def)

lemma numbered_nslots: "map (\<lambda>e. (ekey e, e)) (numbered n) = nslots 0 n"
  by (simp add: numbered_def nslots_def comp_def)

lemma nslots_keys: "map fst (nslots a b) = map digits3 [a..<b]"
  by (simp add: nslots_def comp_def)

lemma nslots_sorted: "b \<le> 1000 \<Longrightarrow> sorted_wrt (<) (map fst (nslots a b))"
  unfolding nslots_keys sorted_wrt_iff_nth_less
  by (auto intro!: digits3_less)

lemma nslots_below: "b < 1000 \<Longrightarrow> \<forall>x\<in>set (nslots a b). fst x < digits3 b"
  by (auto simp: nslots_def intro!: digits3_less)

lemma nslots_Suc:
  "a \<le> b \<Longrightarrow>
     nslots a (Suc b) =
       nslots a b @ [(digits3 b, \<lparr>ekey = digits3 b, evalue = [49], edeleted = False\<rparr>)]"
  by (simp add: nslots_def)

lemma length_nslots [simp]: "length (nslots a b) = b - a"
  by (simp add: nslots_def)

lemma take_nslots: "a + m \<le> b \<Longrightarrow> take m (nslots a b) = nslots a (a + m)"
  by (simp add: nslots_def take_map)

lemma drop_nslots: "drop m (nslots a b) = nslots (a + m) b"
  by (simp add: nslots_def drop_map)

lemma nslots_head: "a < b \<Longrightarrow> fst (nslots a b ! 0) = digits3 a"
  by (simp add: nslots_def)

lemma empty_store_inv: "empty_store d \<Longrightarrow> kvs_inv d"
  by (simp add: empty_store_def kvs_inv_def live_count_def pool_ok_def bloom_covers_def)

lemma empty_store_open: "empty_store kvs_open"
  by (simp add: empty_store_def kvs_open_def)

text \<open>The store after the first \<open>n\<close> numbered puts.\<close>

lemma numbered_store:
  assumes "empty_store d" "n \<le> 1000"
  shows "kvs_inv (replay (numbered n) d)"
    and "chain_slots (root (replay (numbered n) d)) = nslots 0 n"
    and "count (replay (numbered n) d) = n"
    and "pool_pos (replay (numbered n) d) = 48 * n"
    and "pool_size (replay (numbered n) d) = KVS_DEFAULT_POOL_SIZE"
proof -
  have r0: "chain_slots (root d) = []" "pool_pos d = 0" "pool_size d = KVS_DEFAULT_POOL_SIZE"
    using assms(1) by (simp_all add: empty_store_def)
  have k0: "\<forall>ke\<in>set (chain_slots (root d)). \<forall>e\<in>set (numbered n). fst ke < ekey e"
    unfolding r0 by simp
  have p0: "pool_pos d + sum_list (map (\<lambda>e. slot_cost (ekey e, e)) (numbered n)) \<le> pool_size d"
    unfolding r0 numbered_cost using assms(2) by (simp add: KVS_DEFAULT_POOL_SIZE_def)
  have r: "kvs_inv (replay (numbered n) d) \<and>
           chain_slots (root (replay (numbered n) d)) =
             chain_slots (root d) @ map (\<lambda>e. (ekey e, e)) (numbered n)"
    using empty_store_inv [OF assms(1)] numbered_sorted [OF assms(2)] numbered_live k0 p0
    by (rule replay_appends)
  show i: "kvs_inv (replay (numbered n) d)" using r by simp
  show s: "chain_slots (root (replay (numbered n) d)) = nslots 0 n"
    using r unfolding r0 numbered_nslots by simp
  have "filter live (nslots 0 n) = nslots 0 n"
    by (rule filter_True) (auto simp: live_def nslots_def)
  then show "count (replay (numbered n) d) = n"
    using i unfolding kvs_inv_def live_count_def s by simp
  show "pool_pos (replay (numbered n) d) = 48 * n"
    "pool_size (replay (numbered n) d) = KVS_DEFAULT_POOL_SIZE"
    using replay_pool [OF p0] unfolding r0 numbered_cost by simp_all
qed

lemma numbered_put:
  "replay (numbered (Suc n)) d = snd (kvs_put_raw (replay (numbered n) d) (digits3 n) [49])"
  unfolding numbered_Suc replay_snoc by simp

lemma numbered_put_ok:
  assumes "empty_store d" "n \<le> 1000"
  shows "fst (kvs_put_raw (replay (numbered n) d) (digits3 i) [49]) = KVS_OK"
proof -
  have c: "slot_cost (digits3 i, \<lparr>ekey = digits3 i, evalue = [49], edeleted = False\<rparr>) = 48"
    by (simp add: slot_cost_def digits3_def sizeof_Entry_def)
  have "48 * n + 48 \<le> (134217728 :: nat)" using assms(2) by simp
  then show ?thesis
    unfolding put_succeeds_iff numbered_store(4) [OF assms] numbered_store(5) [OF assms] c
      KVS_DEFAULT_POOL_SIZE_def by simp
qed

lemma numbered_root:
  assumes "empty_store d" "n < 1000"
  shows "root (replay (numbered (Suc n)) d) =
         res_root (snd (insert_recursive (root (replay (numbered n) d)) (digits3 n)
                          \<lparr>ekey = digits3 n, evalue = [49], edeleted = False\<rparr>))"
proof -
  have le: "n \<le> 1000" using assms(2) by simp
  obtain a b c db3 where
    al: "put_allocs (replay (numbered n) d) (digits3 n) [49] = (Some a, Some b, Some c, db3)"
    using put_ok_allocs [OF numbered_put_ok [OF assms(1) le, of n]] by blast
  show ?thesis unfolding numbered_put by (rule kvs_put_raw_ok(2) [OF al])
qed

section \<open>The tree of the numbered keys\<close>

text \<open>An insertion behind the last key of a leaf.\<close>

lemma leaf_append:
  assumes "sorted_wrt (<) (map fst kes)" "\<forall>a\<in>set kes. fst a < k" "ekey e = k"
  shows "insert_recursive (Leaf kes) k e =
           (1, if length kes + 1 \<ge> ORDER - 1 then split_leaf (Leaf (kes @ [(k, e)]))
               else NoSplit (Leaf (kes @ [(k, e)])))"
proof -
  have n: "k \<notin> fst ` set kes" using assms(2) by auto
  have p: "slot_put k e kes = kes @ [(k, e)]"
    using slot_put_append_left [OF assms(2), of e "[]"] by simp
  show ?thesis unfolding insert_leaf_result [OF assms(1) assms(3)] p using n by simp
qed

lemma nslots_leaf_append:
  assumes "a \<le> n" "n < 1000"
  shows "insert_recursive (Leaf (nslots a n)) (digits3 n)
           \<lparr>ekey = digits3 n, evalue = [49], edeleted = False\<rparr> =
         (1, if n - a + 1 \<ge> ORDER - 1 then split_leaf (Leaf (nslots a (Suc n)))
             else NoSplit (Leaf (nslots a (Suc n))))"
proof -
  have le: "n \<le> 1000" using assms(2) by simp
  show ?thesis
    using leaf_append [OF nslots_sorted [OF le, of a] nslots_below [OF assms(2), of a],
        of "\<lparr>ekey = digits3 n, evalue = [49], edeleted = False\<rparr>"]
    unfolding nslots_Suc [OF assms(1)] by simp
qed

lemma split_nslots:
  "split_leaf (Leaf (nslots a (a + 63))) =
   Split (Leaf (nslots a (a + 31))) (digits3 (a + 31)) (Leaf (nslots (a + 31) (a + 63)))"
proof -
  have t: "take 31 (nslots a (a + 63)) = nslots a (a + 31)" by (intro take_nslots) simp
  have h: "fst (nslots (a + 31) (a + 63) ! 0) = digits3 (a + 31)"
    by (intro nslots_head) simp
  have "map fst (nslots (a + 31) (a + 63)) ! 0 = fst (nslots (a + 31) (a + 63) ! 0)"
    by (intro nth_map) simp
  then show ?thesis
    unfolding split_leaf_def by (simp add: Let_def num_keys_def t drop_nslots h)
qed


text \<open>An insertion behind the last key of the last leaf, below a root with one key.\<close>

lemma root1_find_pos: "s \<le> k \<Longrightarrow> internal_find_pos (Internal c0 [(s, c)]) k = 1"
  by (simp add: internal_find_pos_def num_keys_def bsearch_le.simps)

lemma root1_append:
  assumes "s \<le> k" "sorted_wrt (<) (map fst R)" "\<forall>a\<in>set R. fst a < k" "ekey e = k"
    and "length R + 1 < ORDER - 1"
  shows "insert_recursive (Internal c0 [(s, Leaf R)]) k e =
           (1, NoSplit (Internal c0 [(s, Leaf (R @ [(k, e)]))]))"
proof -
  have l: "insert_recursive (Leaf R) k e = (1, NoSplit (Leaf (R @ [(k, e)])))"
    unfolding leaf_append [OF assms(2) assms(3) assms(4)] using assms(5) by simp
  show ?thesis
    by (subst insert_recursive.simps(2))
       (simp add: Let_def root1_find_pos [OF assms(1)] l num_keys_def ORDER_def
          del: insert_recursive.simps)
qed

lemma root1_append_split:
  assumes "s \<le> k" "sorted_wrt (<) (map fst R)" "\<forall>a\<in>set R. fst a < k" "ekey e = k"
    and "length R + 1 \<ge> ORDER - 1" "split_leaf (Leaf (R @ [(k, e)])) = Split l u r"
  shows "insert_recursive (Internal c0 [(s, Leaf R)]) k e =
           (1, NoSplit (Internal c0 [(s, l), (u, r)]))"
proof -
  have l: "insert_recursive (Leaf R) k e = (1, Split l u r)"
    unfolding leaf_append [OF assms(2) assms(3) assms(4)] using assms(5) assms(6) by simp
  show ?thesis
    by (subst insert_recursive.simps(2))
       (simp add: Let_def root1_find_pos [OF assms(1)] l num_keys_def ORDER_def
          del: insert_recursive.simps)
qed

lemma numbered_tree_leaf:
  assumes "empty_store d" "n \<le> 62"
  shows "root (replay (numbered n) d) = Leaf (nslots 0 n)"
  using assms(2)
proof (induction n)
  case 0
  show ?case using assms(1) by (simp add: numbered_def replay_def nslots_def empty_store_def)
next
  case (Suc n)
  have n: "n < 1000" "n \<le> 62" "0 \<le> n" using Suc.prems by simp_all
  show ?case
    unfolding numbered_root [OF assms(1) n(1)] Suc.IH [OF n(2)]
      nslots_leaf_append [OF n(3) n(1)]
    using Suc.prems by (simp add: ORDER_def)
qed

lemma numbered_tree_63:
  assumes "empty_store d"
  shows "root (replay (numbered 63) d) =
         Internal (Leaf (nslots 0 31)) [(digits3 31, Leaf (nslots 31 63))]"
proof -
  have n: "(62 :: nat) < 1000" "(62 :: nat) \<le> 62" "(0 :: nat) \<le> 62" by simp_all
  have s: "Suc 62 = 63" by simp
  show ?thesis
    using numbered_root [OF assms n(1)] split_nslots [of 0]
    unfolding numbered_tree_leaf [OF assms n(2)] nslots_leaf_append [OF n(3) n(1)] s
    by (simp add: ORDER_def)
qed

lemma numbered_tree_two:
  assumes "empty_store d" "63 \<le> n" "n \<le> 93"
  shows "root (replay (numbered n) d) =
         Internal (Leaf (nslots 0 31)) [(digits3 31, Leaf (nslots 31 n))]"
  using assms(2,3)
proof (induction n)
  case 0
  then show ?case by simp
next
  case (Suc n)
  show ?case
  proof (cases "n = 62")
    case True
    then show ?thesis using numbered_tree_63 [OF assms(1)] by simp
  next
    case False
    then have n: "63 \<le> n" "n \<le> 93" "n < 1000" "31 \<le> n" "n \<le> 1000" "31 < n"
      using Suc.prems by simp_all
    have le: "digits3 31 \<le> digits3 n"
      using digits3_less [OF n(6) n(3)] by simp
    have "insert_recursive (Internal (Leaf (nslots 0 31)) [(digits3 31, Leaf (nslots 31 n))])
            (digits3 n) \<lparr>ekey = digits3 n, evalue = [49], edeleted = False\<rparr> =
          (1, NoSplit (Internal (Leaf (nslots 0 31))
                 [(digits3 31, Leaf (nslots 31 n @
                      [(digits3 n, \<lparr>ekey = digits3 n, evalue = [49], edeleted = False\<rparr>)]))]))"
      using le nslots_sorted [OF n(5), of 31] nslots_below [OF n(3), of 31]
    proof (rule root1_append)
      show "ekey \<lparr>ekey = digits3 n, evalue = [49], edeleted = False\<rparr> = digits3 n" by simp
      show "length (nslots 31 n) + 1 < ORDER - 1" using Suc.prems by (simp add: ORDER_def)
    qed
    then show ?thesis
      unfolding numbered_root [OF assms(1) n(3)] Suc.IH [OF n(1) n(2)] nslots_Suc [OF n(4)]
      by simp
  qed
qed

lemma numbered_tree_94:
  assumes "empty_store d"
  shows "root (replay (numbered 94) d) =
         Internal (Leaf (nslots 0 31))
           [(digits3 31, Leaf (nslots 31 62)), (digits3 62, Leaf (nslots 62 94))]"
proof -
  have n: "(63 :: nat) \<le> 93" "(93 :: nat) \<le> 93" "(93 :: nat) < 1000" "(31 :: nat) \<le> 93"
    "(93 :: nat) \<le> 1000" "(31 :: nat) < 93"
    by simp_all
  have s: "Suc 93 = 94" by simp
  have le: "digits3 31 \<le> digits3 93"
    using digits3_less [OF n(6) n(3)] by simp
  have sp: "split_leaf (Leaf (nslots 31 93 @
               [(digits3 93, \<lparr>ekey = digits3 93, evalue = [49], edeleted = False\<rparr>)])) =
            Split (Leaf (nslots 31 62)) (digits3 62) (Leaf (nslots 62 94))"
    using split_nslots [of 31] nslots_Suc [OF n(4)] by simp
  have "insert_recursive (Internal (Leaf (nslots 0 31)) [(digits3 31, Leaf (nslots 31 93))])
            (digits3 93) \<lparr>ekey = digits3 93, evalue = [49], edeleted = False\<rparr> =
          (1, NoSplit (Internal (Leaf (nslots 0 31))
                 [(digits3 31, Leaf (nslots 31 62)), (digits3 62, Leaf (nslots 62 94))]))"
    using le nslots_sorted [OF n(5), of 31] nslots_below [OF n(3), of 31]
  proof (rule root1_append_split)
    show "ekey \<lparr>ekey = digits3 93, evalue = [49], edeleted = False\<rparr> = digits3 93" by simp
    show "ORDER - 1 \<le> length (nslots 31 93) + 1" by (simp add: ORDER_def)
    show "split_leaf (Leaf (nslots 31 93 @
               [(digits3 93, \<lparr>ekey = digits3 93, evalue = [49], edeleted = False\<rparr>)])) =
            Split (Leaf (nslots 31 62)) (digits3 62) (Leaf (nslots 62 94))"
      by (rule sp)
  qed
  then show ?thesis
    using numbered_root [OF assms n(3)]
    unfolding numbered_tree_two [OF assms n(1) n(2)] s by simp
qed

theorem node_keys_strictly_increasing_witness:
  "reachable (replay (numbered 94) kvs_open) \<and>
   root (replay (numbered 94) kvs_open) =
     Internal (Leaf (nslots 0 31))
       [(digits3 31, Leaf (nslots 31 62)), (digits3 62, Leaf (nslots 62 94))] \<and>
   keys (root (replay (numbered 94) kvs_open)) = [[48, 51, 49], [48, 54, 50]] \<and>
   keys_increasing (root (replay (numbered 94) kvs_open)) \<and>
   keys_increasing (root (snd (kvs_put_raw (replay (numbered 94) kvs_open) [48] [49]))) \<and>
   keys_increasing (root (snd (kvs_delete (replay (numbered 94) kvs_open) [48, 48, 48])))"
proof -
  have r: "reachable (replay (numbered 94) kvs_open)"
    using reach_open by (rule reachable_replay)
  have t: "root (replay (numbered 94) kvs_open) =
     Internal (Leaf (nslots 0 31))
       [(digits3 31, Leaf (nslots 31 62)), (digits3 62, Leaf (nslots 62 94))]"
    using empty_store_open by (rule numbered_tree_94)
  have k: "keys (root (replay (numbered 94) kvs_open)) = [[48, 51, 49], [48, 54, 50]]"
    unfolding t by (simp add: digits3_def)
  show ?thesis
    using node_keys_strictly_increasing [OF r, of "[48]" "[49]" "[48, 48, 48]"] r t k by blast
qed

section \<open>A store with a small filter\<close>

lemma load_file8: "kvs_load junk file8 = Loaded store8"
  by (simp add: kvs_load_def file8_def store8_def fread_var_def fread_buf_def KVS_MAGIC_def
      Let_def bits_of_bytes_def kvs_open_def)

lemma store8_empty: "empty_store store8"
  by (simp add: empty_store_def store8_def kvs_open_def)

lemma store8_counted: "bloom_counted store8"
  by (simp add: bloom_counted_def store8_def kvs_open_def)

lemma numbered_step:
  assumes "n < 1000"
  shows "\<exists>d6. replay (numbered (Suc n)) store8 =
                (if Suc n mod 1000 = 0 then bloom_check_expand d6 else d6) \<and>
              bloom d6 = bloom (replay (numbered n) store8) \<union>
                         bloom_positions (bloom_bits (replay (numbered n) store8)) (digits3 n) \<and>
              bloom_bits d6 = bloom_bits (replay (numbered n) store8) \<and>
              bloom_set_bits d6 =
                bloom_set_bits (bloom_add (replay (numbered n) store8) (digits3 n)) \<and>
              root d6 = root (replay (numbered (Suc n)) store8)"
proof -
  define dn where "dn = replay (numbered n) store8"
  have le: "n \<le> 1000" "Suc n \<le> 1000" using assms by simp_all
  have e: "replay (numbered (Suc n)) store8 = snd (kvs_put_raw dn (digits3 n) [49])"
    unfolding dn_def by (rule numbered_put)
  obtain a b c db3 where
    al: "put_allocs dn (digits3 n) [49] = (Some a, Some b, Some c, db3)"
    using put_ok_allocs [OF numbered_put_ok [OF store8_empty le(1), of n]] unfolding dn_def
    by blast
  obtain d6 where d6: "snd (kvs_put_raw dn (digits3 n) [49]) =
        (if count d6 mod 1000 = 0 then bloom_check_expand d6 else d6)"
      "bloom d6 = bloom dn \<union> bloom_positions (bloom_bits dn) (digits3 n)"
      "bloom_bits d6 = bloom_bits dn"
      "bloom_set_bits d6 = bloom_set_bits (bloom_add dn (digits3 n))"
      "root d6 = root (snd (kvs_put_raw dn (digits3 n) [49]))"
      "count d6 = count (snd (kvs_put_raw dn (digits3 n) [49]))"
    using kvs_put_raw_shape [OF al] by blast
  have c: "count d6 = Suc n"
    unfolding d6(6) e [symmetric] using numbered_store(3) [OF store8_empty le(2)] .
  show ?thesis
    unfolding dn_def [symmetric] e using d6(1-5) unfolding c by blast
qed

lemma numbered_prefix:
  assumes "n < 1000"
  shows "bloom_bits (replay (numbered n) store8) = 8 \<and>
         bloom_counted (replay (numbered n) store8) \<and>
         (\<forall>i<n. bloom_positions 8 (digits3 i) \<subseteq> bloom (replay (numbered n) store8))"
  using assms
proof (induction n)
  case 0
  show ?case
    using store8_counted by (simp add: numbered_def replay_def store8_def)
next
  case (Suc n)
  define dn where "dn = replay (numbered n) store8"
  have n: "n < 1000" and ne: "Suc n mod 1000 \<noteq> 0" using Suc.prems by simp_all
  have ih: "bloom_bits dn = 8" "bloom_counted dn"
    "\<forall>i<n. bloom_positions 8 (digits3 i) \<subseteq> bloom dn"
    using Suc.IH [OF n] by (simp_all add: dn_def)
  obtain d6 where d6: "replay (numbered (Suc n)) store8 = d6"
      "bloom d6 = bloom dn \<union> bloom_positions (bloom_bits dn) (digits3 n)"
      "bloom_bits d6 = bloom_bits dn"
      "bloom_set_bits d6 = bloom_set_bits (bloom_add dn (digits3 n))"
    using numbered_step [OF n] ne unfolding dn_def [symmetric] by auto
  have "bloom_counted (bloom_add dn (digits3 n))" using ih(2) by (rule bloom_add_counted)
  then have c: "bloom_counted d6"
    unfolding bloom_counted_def d6(2) d6(4) bloom_add_bloom .
  have "bloom_positions 8 (digits3 i) \<subseteq> bloom d6" if "i < Suc n" for i
  proof (cases "i = n")
    case True
    then show ?thesis unfolding d6(2) ih(1) by simp
  next
    case False
    then have "i < n" using that by simp
    then show ?thesis using ih(3) unfolding d6(2) by auto
  qed
  then show ?case unfolding d6(1) using c d6(3) ih(1) by simp
qed

lemma positions8:
  "bloom_positions 8 (digits3 0) = {7, 5, 3}" "bloom_positions 8 (digits3 1) = {4}"
  by (simp_all add: bloom_positions_def digits3_def fnv1a_def hash2_def hash3_def)

lemma positions32:
  "bloom_positions 32 (digits3 0) = {7, 5, 11}" "bloom_positions 32 (digits3 1) = {20, 4, 12}"
  "bloom_positions 32 (digits3 2) = {13, 7, 13}" "bloom_positions 32 (digits3 3) = {26, 6, 14}"
  "bloom_positions 32 (digits3 4) = {27, 1, 15}" "bloom_positions 32 (digits3 5) = {8, 0, 16}"
  by (simp_all add: bloom_positions_def digits3_def fnv1a_def hash2_def hash3_def)

text \<open>The thousandth numbered put finds the 8-bit filter at least half full and grows it
  to 32 bits; the 32-bit filter is again at least half full.\<close>

lemma store1000_filter:
  "bloom_bits (replay (numbered 1000) store8) = 32"
  "bloom_counted (replay (numbered 1000) store8)"
  "16 \<le> bloom_set_bits (replay (numbered 1000) store8)"
proof -
  define dn where "dn = replay (numbered 999) store8"
  define db where "db = replay (numbered 1000) store8"
  have p: "bloom_bits dn = 8" "bloom_counted dn"
    "\<forall>i<999. bloom_positions 8 (digits3 i) \<subseteq> bloom dn"
    using numbered_prefix [of 999] by (simp_all add: dn_def)
  have s: "Suc 999 = 1000" by simp
  obtain d6 where d6: "db = bloom_check_expand d6"
      "bloom d6 = bloom dn \<union> bloom_positions (bloom_bits dn) (digits3 999)"
      "bloom_bits d6 = bloom_bits dn"
      "bloom_set_bits d6 = bloom_set_bits (bloom_add dn (digits3 999))"
    using numbered_step [of 999] unfolding dn_def [symmetric] s db_def [symmetric] by auto
  have "bloom_counted (bloom_add dn (digits3 999))" using p(2) by (rule bloom_add_counted)
  then have c6: "bloom_counted d6"
    unfolding bloom_counted_def d6(2) d6(4) bloom_add_bloom .
  have "bloom_positions 8 (digits3 0) \<union> bloom_positions 8 (digits3 1) \<subseteq> bloom d6"
    using p(3) [rule_format, of 0] p(3) [rule_format, of 1] unfolding d6(2) by auto
  then have "{7, 5, 3, 4} \<subseteq> bloom d6" unfolding positions8 by simp
  then have "card {7, 5, 3, 4 :: nat} \<le> card (bloom d6)"
    using c6 by (intro card_mono) (simp_all add: bloom_counted_def)
  then have f: "4 \<le> bloom_set_bits d6" using c6 by (simp add: bloom_counted_def)
  have b: "bloom_bits db = 32"
    unfolding d6(1) bloom_check_expand_bits d6(3) p(1) using f
    by (simp add: KVS_BLOOM_MAX_BITS_def)
  show "bloom_bits (replay (numbered 1000) store8) = 32" using b by (simp add: db_def)
  show c: "bloom_counted (replay (numbered 1000) store8)"
    unfolding db_def [symmetric] d6(1) using c6 by (rule bloom_check_expand_counted)
  have ne: "bloom_bits (bloom_check_expand d6) \<noteq> bloom_bits d6"
    using b unfolding d6(1) d6(3) p(1) by simp
  have bl: "bloom db = (\<Union>ke\<in>{ke \<in> set (chain_slots (root db)). live ke}.
                          bloom_positions 32 (fst ke))"
    using bloom_check_expand_bloom [of d6] ne b unfolding d6(1) by simp
  have sl: "chain_slots (root db) = nslots 0 1000"
    unfolding db_def using store8_empty by (rule numbered_store(2)) simp
  have m: "bloom_positions 32 (digits3 i) \<subseteq> bloom db" if "i < 1000" for i
  proof -
    have "(digits3 i, \<lparr>ekey = digits3 i, evalue = [49], edeleted = False\<rparr>) \<in>
          set (chain_slots (root db))"
      unfolding sl nslots_def using that by (auto simp: image_iff)
    moreover have "live (digits3 i, \<lparr>ekey = digits3 i, evalue = [49], edeleted = False\<rparr>)"
      by (simp add: live_def)
    ultimately show ?thesis unfolding bl by force
  qed
  have "bloom_positions 32 (digits3 0) \<union> bloom_positions 32 (digits3 1) \<union>
        bloom_positions 32 (digits3 2) \<union> bloom_positions 32 (digits3 3) \<union>
        bloom_positions 32 (digits3 4) \<union> bloom_positions 32 (digits3 5) \<subseteq> bloom db"
    using m [of 0] m [of 1] m [of 2] m [of 3] m [of 4] m [of 5] by simp
  then have "{7, 5, 11, 20, 4, 12, 13, 26, 6, 14, 27, 1, 15, 8, 0, 16} \<subseteq> bloom db"
    unfolding positions32 by simp
  then have "card {7, 5, 11, 20, 4, 12, 13, 26, 6, 14, 27, 1, 15, 8, 0, 16 :: nat} \<le>
             card (bloom db)"
    using c by (intro card_mono) (simp_all add: bloom_counted_def db_def)
  then show "16 \<le> bloom_set_bits (replay (numbered 1000) store8)"
    using c by (simp add: bloom_counted_def db_def)
qed

lemma numbered_member:
  assumes "i < n" "n \<le> 1000"
  shows "(digits3 i, \<lparr>ekey = digits3 i, evalue = [49], edeleted = False\<rparr>) \<in>
         set (chain_slots (root (replay (numbered n) store8)))"
proof -
  have "i \<in> set [0..<n]" using assms(1) by simp
  then have "(\<lambda>i. (digits3 i, \<lparr>ekey = digits3 i, evalue = [49], edeleted = False\<rparr>)) i \<in>
             set (nslots 0 n)"
    unfolding nslots_def set_map by (rule imageI)
  then show ?thesis unfolding numbered_store(2) [OF store8_empty assms(2)] by simp
qed

lemma numbered_get:
  assumes "i < n" "n \<le> 1000"
  shows "kvs_get_raw (replay (numbered n) store8) (digits3 i) = Some [49]"
proof -
  define db where "db = replay (numbered n) store8"
  define ke where "ke = (digits3 i, \<lparr>ekey = digits3 i, evalue = [49], edeleted = False\<rparr>)"
  have m: "ke \<in> set (chain_slots (root db))"
    unfolding ke_def db_def using assms by (rule numbered_member)
  have "ke \<in> set (filter (\<lambda>ke. \<not> edeleted (snd ke)) (chain_slots (root db)))"
    using m by (simp add: ke_def)
  then have "(\<lambda>ke. (ekey (snd ke), evalue (snd ke))) ke \<in> set (foreach_calls db)"
    unfolding foreach_calls_def set_map by (rule imageI)
  then have "(digits3 i, [49]) \<in> set (foreach_calls db)" by (simp add: ke_def)
  then show ?thesis
    using get_iff_foreach [OF numbered_store(1) [OF store8_empty assms(2)]] by (simp add: db_def)
qed

lemma numbered_overwrite_count:
  assumes "i < n" "n \<le> 1000"
  shows "count (snd (kvs_put_raw (replay (numbered n) store8) (digits3 i) [49])) = n"
proof -
  define db where "db = replay (numbered n) store8"
  note ns = numbered_store [OF store8_empty assms(2), folded db_def]
  have S: "bp_sorted (root db)" using ns(1) by (simp add: kvs_inv_def)
  obtain a b c db3 where
    al: "put_allocs db (digits3 i) [49] = (Some a, Some b, Some c, db3)"
    using put_ok_allocs [OF numbered_put_ok [OF store8_empty assms(2), of i]]
    unfolding db_def by blast
  have "(digits3 i, \<lparr>ekey = digits3 i, evalue = [49], edeleted = False\<rparr>) \<in>
           set (chain_slots (root db))"
    unfolding db_def using assms by (rule numbered_member)
  then have ex: "\<exists>e'. (digits3 i, e') \<in> set (chain_slots (root db)) \<and> \<not> edeleted e'"
    by (intro exI [of _ "\<lparr>ekey = digits3 i, evalue = [49], edeleted = False\<rparr>"]) simp
  show ?thesis
    unfolding db_def [symmetric] put_ok_slots(3) [OF S al] using ex ns(3) by simp
qed

text \<open>
  Claim C6, as amended. In a store with a filter (\<open>bloom_bits > 0\<close>), after every put,
  whether it added an entry or replaced the value of a live one, the filter has grown
  exactly when the put succeeded, \<open>count\<close> is then a multiple of 1000, the set-bit
  counter is at least half of \<open>bloom_bits\<close> and \<open>bloom_bits\<close> is below
  \<open>KVS_BLOOM_MAX_BITS\<close>; the new filter has 4 times the bits, capped at the maximum, and
  holds the bits of the keys of the live entries. Otherwise the put has added the bits of
  its key to the filter, or left the filter alone if it failed. A delete leaves the filter
  as it is.
\<close>

theorem filter_grows_at_count_multiple:
  assumes "0 < bloom_bits db"
  shows "bloom_bits (snd (kvs_put_raw db k v)) =
     (if fst (kvs_put_raw db k v) = KVS_OK \<and> count (snd (kvs_put_raw db k v)) mod 1000 = 0 \<and>
         bloom_bits db \<le> 2 * bloom_set_bits (bloom_add db k) \<and>
         bloom_bits db < KVS_BLOOM_MAX_BITS
      then min (4 * bloom_bits db) KVS_BLOOM_MAX_BITS else bloom_bits db) \<and>
   bloom (snd (kvs_put_raw db k v)) =
     (if bloom_bits (snd (kvs_put_raw db k v)) \<noteq> bloom_bits db
      then (\<Union>ke\<in>{ke \<in> set (chain_slots (root (snd (kvs_put_raw db k v)))). live ke}.
              bloom_positions (bloom_bits (snd (kvs_put_raw db k v))) (fst ke))
      else if fst (kvs_put_raw db k v) = KVS_OK
           then bloom db \<union> bloom_positions (bloom_bits db) k else bloom db) \<and>
   0 < bloom_bits (snd (kvs_put_raw db k v)) \<and>
   bloom_bits (snd (kvs_delete db key)) = bloom_bits db \<and>
   bloom (snd (kvs_delete db key)) = bloom db"
proof -
  have "0 < bloom_bits (snd (kvs_put_raw db k v))"
    unfolding put_bloom_fields(1) using assms by (simp add: KVS_BLOOM_MAX_BITS_def)
  then show ?thesis
    using put_bloom_fields [of db k v] kvs_delete_bits [of db key] kvs_delete_bloom [of db key]
    by blast
qed

theorem filter_grows_at_count_multiple_witness:
  "0 < bloom_bits (replay (numbered 999) store8) \<and>
   count (snd (kvs_put_raw (replay (numbered 999) store8) (digits3 999) [49])) = 1000 \<and>
   bloom_bits (replay (numbered 999) store8) = 8 \<and>
   bloom_bits (snd (kvs_put_raw (replay (numbered 999) store8) (digits3 999) [49])) = 32 \<and>
   8 \<le> 2 * bloom_set_bits (bloom_add (replay (numbered 999) store8) (digits3 999))"
proof -
  define dn where "dn = replay (numbered 999) store8"
  have s: "numbered 1000 = numbered 999 @ [\<lparr>ekey = digits3 999, evalue = [49], edeleted = False\<rparr>]"
    using numbered_Suc [of 999] by simp
  have e: "snd (kvs_put_raw dn (digits3 999) [49]) = replay (numbered 1000) store8"
    unfolding s replay_snoc dn_def by simp
  have c: "count (snd (kvs_put_raw dn (digits3 999) [49])) = 1000"
    unfolding e using store8_empty by (rule numbered_store(3)) simp
  have b: "bloom_bits dn = 8" using numbered_prefix [of 999] by (simp add: dn_def)
  have z: "0 < bloom_bits dn" unfolding b by simp
  have b': "bloom_bits (snd (kvs_put_raw dn (digits3 999) [49])) = 32"
    unfolding e by (rule store1000_filter(1))
  have "bloom_bits (snd (kvs_put_raw dn (digits3 999) [49])) =
     (if fst (kvs_put_raw dn (digits3 999) [49]) = KVS_OK \<and>
         count (snd (kvs_put_raw dn (digits3 999) [49])) mod 1000 = 0 \<and>
         bloom_bits dn \<le> 2 * bloom_set_bits (bloom_add dn (digits3 999)) \<and>
         bloom_bits dn < KVS_BLOOM_MAX_BITS
      then min (4 * bloom_bits dn) KVS_BLOOM_MAX_BITS else bloom_bits dn)"
    using filter_grows_at_count_multiple [OF z, of "digits3 999" "[49]" "[]"] by blast
  then have "8 \<le> 2 * bloom_set_bits (bloom_add dn (digits3 999))"
    unfolding b' b by (simp split: if_splits)
  then show ?thesis using z c b b' unfolding dn_def by simp
qed

text \<open>
  The store below is loaded from a file with an 8-bit filter and no entry, and takes the
  puts of the keys \<open>000\<close> ... \<open>999\<close>; the thousandth grows the filter to 32 bits. One more
  put, of the key \<open>000\<close> with the value it already has, inserts nothing: \<open>count\<close> stays at
  1000. The filter grows again, to 128 bits.
\<close>

theorem filter_grows_on_overwrite_counterexample:
  "kvs_load (\<lambda>b i. 0) file8 = Loaded store8 \<and>
   count (replay (numbered 1000) store8) = 1000 \<and>
   bloom_bits (replay (numbered 1000) store8) = 32 \<and>
   kvs_get_raw (replay (numbered 1000) store8) (digits3 0) = Some [49] \<and>
   fst (kvs_put_raw (replay (numbered 1000) store8) (digits3 0) [49]) = KVS_OK \<and>
   count (snd (kvs_put_raw (replay (numbered 1000) store8) (digits3 0) [49])) = 1000 \<and>
   bloom_bits (snd (kvs_put_raw (replay (numbered 1000) store8) (digits3 0) [49])) = 128"
proof -
  define db where "db = replay (numbered 1000) store8"
  have c: "count db = 1000" unfolding db_def using store8_empty by (rule numbered_store(3)) simp
  have b: "bloom_bits db = 32" unfolding db_def by (rule store1000_filter(1))
  have z: "(0 :: nat) < 1000" and le: "(1000 :: nat) \<le> 1000" by simp_all
  have ok: "fst (kvs_put_raw db (digits3 0) [49]) = KVS_OK"
    unfolding db_def using store8_empty le by (rule numbered_put_ok)
  have c': "count (snd (kvs_put_raw db (digits3 0) [49])) = 1000"
    unfolding db_def using z le by (rule numbered_overwrite_count)
  have g: "kvs_get_raw db (digits3 0) = Some [49]"
    unfolding db_def using z le by (rule numbered_get)
  have "16 \<le> bloom_set_bits (bloom_add db (digits3 0))"
    using store1000_filter(3) bloom_add_counter_mono [of db "digits3 0"]
    unfolding db_def by (rule order_trans)
  then have f: "bloom_bits db \<le> 2 * bloom_set_bits (bloom_add db (digits3 0))"
    unfolding b by simp
  have m: "bloom_bits db < KVS_BLOOM_MAX_BITS" unfolding b by (simp add: KVS_BLOOM_MAX_BITS_def)
  have "bloom_bits (snd (kvs_put_raw db (digits3 0) [49])) =
        min (4 * bloom_bits db) KVS_BLOOM_MAX_BITS"
    unfolding put_bloom_fields(1) [of db "digits3 0" "[49]"] using ok c' f m by simp
  then have "bloom_bits (snd (kvs_put_raw db (digits3 0) [49])) = 128"
    unfolding b by (simp add: KVS_BLOOM_MAX_BITS_def)
  then show ?thesis using load_file8 c b ok c' g unfolding db_def by simp
qed

end
